theory Spec2Isabelle
  imports Complex_Main
begin

section \<open>JavaScript string primitives\<close>

text \<open>
  A JavaScript string is modelled as a \<^typ>\<open>string\<close> whose characters are the code
  units below 256 (ASCII and Latin-1). The white space of \<open>String.prototype.trim\<close> and of
  the regular expression class \<open>\s\<close> in that range is TAB, LF, VT, FF, CR, SPACE and NBSP.
\<close>

definition isWhiteSpace :: "char \<Rightarrow> bool" where
  "isWhiteSpace c = (of_char c \<in> {9, 10, 11, 12, 13, 32, 160 :: nat})"

definition trim :: "string \<Rightarrow> string" where
  "trim s = rev (dropWhile isWhiteSpace (rev (dropWhile isWhiteSpace s)))"

definition toLowerChar :: "char \<Rightarrow> char" where
  "toLowerChar c =
     (let n = of_char c :: nat
      in if (65 \<le> n \<and> n \<le> 90) \<or> (192 \<le> n \<and> n \<le> 222 \<and> n \<noteq> 215)
         then char_of (n + 32) else c)"

definition toLowerCase :: "string \<Rightarrow> string" where
  "toLowerCase s = map toLowerChar s"

fun startsWith :: "string \<Rightarrow> string \<Rightarrow> bool" where
  "startsWith s [] = True"
| "startsWith [] (p # ps) = False"
| "startsWith (c # cs) (p # ps) = (c = p \<and> startsWith cs ps)"

text \<open>\<open>s.includes(p)\<close>: \<open>p\<close> occurs in \<open>s\<close> as a contiguous substring.\<close>

fun str_includes :: "string \<Rightarrow> string \<Rightarrow> bool" where
  "str_includes [] p = (p = [])"
| "str_includes (c # cs) p = (startsWith (c # cs) p \<or> str_includes cs p)"

text \<open>\<open>s.split(d)\<close> for a one-character separator.\<close>

fun split_on :: "char \<Rightarrow> string \<Rightarrow> string list" where
  "split_on d [] = [[]]"
| "split_on d (c # cs) =
     (if c = d then [] # split_on d cs
      else (case split_on d cs of w # ws \<Rightarrow> (c # w) # ws | [] \<Rightarrow> [[c]]))"

text \<open>\<open>xs.findIndex(P)\<close>; the result \<open>-1\<close> of JavaScript is \<^const>\<open>None\<close>.\<close>

fun findIndex :: "('a \<Rightarrow> bool) \<Rightarrow> 'a list \<Rightarrow> nat option" where
  "findIndex P [] = None"
| "findIndex P (x # xs) = (if P x then Some 0 else map_option Suc (findIndex P xs))"

text \<open>Decimal rendering of a number inside a template string.\<close>

definition digit_char :: "nat \<Rightarrow> char" where
  "digit_char d = char_of (48 + d)"

function show_nat :: "nat \<Rightarrow> string" where
  "show_nat n = (if n < 10 then [digit_char n] else show_nat (n div 10) @ [digit_char (n mod 10)])"
  by pat_completeness auto
termination
  by (relation "measure id") auto

declare show_nat.simps [simp del]


section \<open>The quiz modal and its voice command router\<close>

text \<open>
  The quiz component keeps the answers, the index of the current question and the voice
  feedback line as React state, and a flag \<open>hasSpokenRef\<close>. The two callbacks it is given,
  \<open>onSubmit\<close> and \<open>speak\<close>, are modelled by the lists of the arguments they were called with.
\<close>

datatype qtype = MultipleChoice | TrueFalse | ShortAnswer | OtherType

record question =
  qtext :: string
  qtype :: qtype
  qoptions :: "string list"

record quiz_props =
  questions :: "question list"
  hasSpeak :: bool

record quiz =
  answers :: "string list"
  currentQuestion :: nat
  voiceFeedback :: string
  hasSpoken :: bool
  submitted :: "string list list"
  spokenTexts :: "string list"

definition quiz_init :: "quiz_props \<Rightarrow> quiz" where
  "quiz_init p =
     \<lparr>answers = replicate (length (questions p)) [], currentQuestion = 0,
      voiceFeedback = [], hasSpoken = False, submitted = [], spokenTexts = []\<rparr>"

text \<open>
  \<open>newAnswers[index] = value\<close>. Writing past the end of a JavaScript array extends it; the
  holes this leaves are rendered here as empty strings.
\<close>

definition handleAnswerChange :: "nat \<Rightarrow> string \<Rightarrow> quiz \<Rightarrow> quiz" where
  "handleAnswerChange index v s =
     s\<lparr>answers :=
         (if index < length (answers s) then (answers s)[index := v]
          else answers s @ replicate (index - length (answers s)) [] @ [v])\<rparr>"

definition handleNext :: "quiz_props \<Rightarrow> quiz \<Rightarrow> quiz" where
  "handleNext p s =
     (if int (currentQuestion s) < int (length (questions p)) - 1
      then s\<lparr>currentQuestion := currentQuestion s + 1, voiceFeedback := [], hasSpoken := False\<rparr>
      else s)"

definition handlePrevious :: "quiz \<Rightarrow> quiz" where
  "handlePrevious s =
     (if currentQuestion s > 0
      then s\<lparr>currentQuestion := currentQuestion s - 1, voiceFeedback := [], hasSpoken := False\<rparr>
      else s)"

definition handleSubmit :: "quiz \<Rightarrow> quiz" where
  "handleSubmit s =
     (case findIndex (\<lambda>a. trim a = []) (answers s) of
        Some unanswered \<Rightarrow>
          s\<lparr>voiceFeedback := ''Please answer question '' @ show_nat (unanswered + 1) @ '' first.'',
            currentQuestion := unanswered, hasSpoken := False\<rparr>
      | None \<Rightarrow> s\<lparr>submitted := submitted s @ [answers s]\<rparr>)"

subsection \<open>Similarity of two strings\<close>

text \<open>
  \<open>calculateSimilarity\<close> runs the single-row edit distance: \<open>costs\<close> is the row, the outer
  loop ranges over \<open>i = 0 .. longer.length\<close>, the inner one over \<open>j = 0 .. shorter.length\<close>.
  The pass \<open>i = 0\<close> assigns every cell of the row before any cell is read, so the row starts
  here as a list of the final length. The quotient is a JavaScript double in the source and an
  exact rational here; on quotients of string lengths the two orders agree.
\<close>

definition inner_step ::
  "string \<Rightarrow> string \<Rightarrow> nat \<Rightarrow> nat \<Rightarrow> nat list \<times> nat \<Rightarrow> nat list \<times> nat" where
  "inner_step longer shorter i j = (\<lambda>(costs, lastValue).
     if i = 0 then (costs[j := j], lastValue)
     else if j > 0 then
       (let newValue0 = costs ! (j - 1);
            newValue = (if longer ! (i - 1) \<noteq> shorter ! (j - 1)
                        then min (min newValue0 lastValue) (costs ! j) + 1
                        else newValue0)
        in (costs[j - 1 := lastValue], newValue))
     else (costs, lastValue))"

definition outer_step :: "string \<Rightarrow> string \<Rightarrow> nat \<Rightarrow> nat list \<Rightarrow> nat list" where
  "outer_step longer shorter i costs =
     (case fold (inner_step longer shorter i) [0 ..< Suc (length shorter)] (costs, i) of
        (costs', lastValue) \<Rightarrow>
          if i > 0 then costs'[length shorter := lastValue] else costs')"

definition editCosts :: "string \<Rightarrow> string \<Rightarrow> nat list" where
  "editCosts longer shorter =
     fold (outer_step longer shorter) [0 ..< Suc (length longer)]
       (replicate (Suc (length shorter)) 0)"

definition calculateSimilarity :: "string \<Rightarrow> string \<Rightarrow> rat" where
  "calculateSimilarity s1 s2 =
     (let longer = (if length s1 > length s2 then s1 else s2);
          shorter = (if length s1 > length s2 then s2 else s1);
          longerLength = length longer
      in if longerLength = 0 then 1
         else (of_nat longerLength - of_nat (editCosts longer shorter ! length shorter))
                / of_nat longerLength)"

subsection \<open>The router\<close>

text \<open>\<open>.replace(/[.,!?;:]/g, '')\<close>\<close>

definition stripPunct :: "string \<Rightarrow> string" where
  "stripPunct s = filter (\<lambda>c. c \<notin> set ''.,!?;:'') s"

definition normalizeTranscript :: "string \<Rightarrow> string" where
  "normalizeTranscript transcript = trim (stripPunct (toLowerCase transcript))"

text \<open>
  \<open>opt[0]\<close>: the first character as a one-character string, \<open>undefined\<close> (\<^const>\<open>None\<close>) for
  the empty string; \<open>options[k]?.[0]\<close> is \<open>undefined\<close> as well when there is no option \<open>k\<close>.
\<close>

definition optionLetter :: "string \<Rightarrow> string option" where
  "optionLetter opt = (case opt of [] \<Rightarrow> None | c # _ \<Rightarrow> Some [c])"

definition nthLetter :: "string list \<Rightarrow> nat \<Rightarrow> string option" where
  "nthLetter opts k = (if k < length opts then optionLetter (opts ! k) else None)"

definition directOption :: "string \<Rightarrow> string list \<Rightarrow> string option" where
  "directOption lower opts =
     (let ws = split_on CHR '' '' lower in
      if lower = ''option a'' \<or> lower = ''a'' \<or> ''a'' \<in> set ws then nthLetter opts 0
      else if lower = ''option b'' \<or> lower = ''b'' \<or> ''b'' \<in> set ws then nthLetter opts 1
      else if lower = ''option c'' \<or> lower = ''c'' \<or> ''c'' \<in> set ws then nthLetter opts 2
      else if lower = ''option d'' \<or> lower = ''d'' \<or> ''d'' \<in> set ws then nthLetter opts 3
      else None)"

definition optionText :: "string \<Rightarrow> string" where
  "optionText opt = trim (stripPunct (toLowerCase (drop 3 opt)))"

definition containsOption :: "string \<Rightarrow> string \<Rightarrow> bool" where
  "containsOption lower opt = (str_includes lower (optionText opt) \<and> length (optionText opt) > 2)"

text \<open>One round of the \<open>forEach\<close> over the options, on the pair \<open>(bestMatch, bestScore)\<close>.\<close>

definition fuzzy_step :: "string \<Rightarrow> string option \<times> rat \<Rightarrow> string \<Rightarrow> string option \<times> rat" where
  "fuzzy_step lower best opt =
     (let score = calculateSimilarity lower (optionText opt);
          best1 = (if score > snd best then (optionLetter opt, score) else best)
      in if containsOption lower opt then (optionLetter opt, 1) else best1)"

definition fuzzyMatch :: "string \<Rightarrow> string list \<Rightarrow> string option \<times> rat" where
  "fuzzyMatch lower opts = foldl (fuzzy_step lower) (None, 0) opts"

definition detectMultipleChoice :: "string \<Rightarrow> string list \<Rightarrow> string option" where
  "detectMultipleChoice lower opts =
     (case directOption lower opts of
        Some a \<Rightarrow> Some a
      | None \<Rightarrow>
          (case fuzzyMatch lower opts of
             (bestMatch, bestScore) \<Rightarrow> if bestScore > 6 / 10 then bestMatch else None))"

definition detectTrueFalse :: "string \<Rightarrow> string option" where
  "detectTrueFalse lower =
     (if str_includes lower ''true'' \<or> str_includes lower ''yes'' then Some ''True''
      else if str_includes lower ''false'' \<or> str_includes lower ''no'' then Some ''False''
      else None)"

definition textToRead :: "question \<Rightarrow> string" where
  "textToRead q =
     qtext q @ ''.'' @
     (if qtype q = MultipleChoice
      then ''Options are: '' @ concat (map (\<lambda>opt. opt @ ''.'') (qoptions q)) else [])"

definition isNextCommand :: "string \<Rightarrow> bool" where
  "isNextCommand lower =
     (lower = ''next'' \<or> str_includes lower ''next question'' \<or> str_includes lower ''go forward'')"

definition isPreviousCommand :: "string \<Rightarrow> bool" where
  "isPreviousCommand lower =
     (lower = ''previous'' \<or> lower = ''back'' \<or> str_includes lower ''go back'')"

definition isSubmitCommand :: "string \<Rightarrow> bool" where
  "isSubmitCommand lower =
     (lower = ''submit'' \<or> str_includes lower ''submit quiz'' \<or> str_includes lower ''finish''
      \<or> str_includes lower ''done'')"

definition isRepeatCommand :: "string \<Rightarrow> bool" where
  "isRepeatCommand lower =
     (str_includes lower ''repeat'' \<or> str_includes lower ''read again'' \<or> lower = ''read'')"

definition didntCatch :: string where
  "didntCatch = ''Didn't catch that. Say '' @ [CHR 0x22] @ ''A'' @ [CHR 0x22] @ '', ''
     @ [CHR 0x22] @ ''B'' @ [CHR 0x22] @ '', or the answer.''"

text \<open>
  \<open>processVoiceCommand\<close>. Reading \<open>question.type\<close> when \<open>questions[currentQuestion]\<close> is
  \<open>undefined\<close> throws a \<open>TypeError\<close>, which nothing catches: the result is \<^const>\<open>None\<close>.
\<close>

definition answerCommand :: "quiz_props \<Rightarrow> string \<Rightarrow> string \<Rightarrow> quiz \<Rightarrow> quiz option" where
  "answerCommand p transcript lower s =
     (if currentQuestion s < length (questions p) then
        (let q = questions p ! currentQuestion s in
         if qtype q = ShortAnswer then
           Some ((handleAnswerChange (currentQuestion s) transcript s)
                   \<lparr>voiceFeedback := ''Typed: '' @ [CHR 0x22] @ transcript @ [CHR 0x22]\<rparr>)
         else
           (case (if qtype q = MultipleChoice then detectMultipleChoice lower (qoptions q)
                  else if qtype q = TrueFalse then detectTrueFalse lower
                  else None) of
              Some detectedAnswer \<Rightarrow>
                Some ((handleAnswerChange (currentQuestion s) detectedAnswer s)
                        \<lparr>voiceFeedback := ''Selected: '' @ detectedAnswer @ '' ''\<rparr>)
            | None \<Rightarrow> Some (s\<lparr>voiceFeedback := didntCatch\<rparr>)))
      else None)"

definition repeatCommand :: "quiz_props \<Rightarrow> quiz \<Rightarrow> quiz" where
  "repeatCommand p s =
     (let s1 = s\<lparr>hasSpoken := False\<rparr> in
      if currentQuestion s < length (questions p) \<and> hasSpeak p
      then s1\<lparr>spokenTexts := spokenTexts s1 @ [textToRead (questions p ! currentQuestion s)]\<rparr>
      else s1)"

definition processVoiceCommand :: "quiz_props \<Rightarrow> string \<Rightarrow> quiz \<Rightarrow> quiz option" where
  "processVoiceCommand p transcript s =
     (let lower = normalizeTranscript transcript in
      if isNextCommand lower then Some (handleNext p s)
      else if isPreviousCommand lower then Some (handlePrevious s)
      else if isSubmitCommand lower then Some (handleSubmit s)
      else if isRepeatCommand lower then Some (repeatCommand p s)
      else answerCommand p transcript lower s)"

text \<open>The question of the command-matching scenario.\<close>

definition capitals :: "string list" where
  "capitals = [''A) Paris'', ''B) London'', ''C) Berlin'', ''D) Madrid'']"

text \<open>
  The effect that hands the voice input of the parent to \<open>processVoiceCommand\<close>. The parent
  keeps the input it handed over, and the effect runs again after every render: its
  dependency \<open>processVoiceCommand\<close> is a new function each time, because
  \<open>calculateSimilarity\<close>, which the component defines anew at each render, is among the
  dependencies of that callback. \<open>effect_runs\<close> is the state after a number of runs of
  the effect with the same voice input.
\<close>

definition voiceInputEffect :: "quiz_props \<Rightarrow> (string \<times> bool) option \<Rightarrow> quiz \<Rightarrow> quiz option" where
  "voiceInputEffect p voiceInput s =
     (case voiceInput of
        None \<Rightarrow> Some s
      | Some (words, finalized) \<Rightarrow>
          if finalized then processVoiceCommand p words s
          else Some (s\<lparr>voiceFeedback := ''... '' @ words\<rparr>))"

fun effect_runs :: "quiz_props \<Rightarrow> (string \<times> bool) option \<Rightarrow> nat \<Rightarrow> quiz \<Rightarrow> quiz option" where
  "effect_runs p voiceInput 0 s = Some s"
| "effect_runs p voiceInput (Suc n) s =
     (case voiceInputEffect p voiceInput s of
        None \<Rightarrow> None
      | Some s' \<Rightarrow> effect_runs p voiceInput n s')"

subsection \<open>Sample quizzes\<close>

definition sample_props :: quiz_props where
  "sample_props =
     \<lparr>questions =
        [\<lparr>qtext = ''What is the capital of France?'', qtype = MultipleChoice, qoptions = capitals\<rparr>,
         \<lparr>qtext = ''The Seine flows through Paris.'', qtype = TrueFalse, qoptions = []\<rparr>],
      hasSpeak = True\<rparr>"

definition answered :: quiz where
  "answered = \<lparr>answers = [''A'', ''True''], currentQuestion = 1, voiceFeedback = [],
     hasSpoken = True, submitted = [], spokenTexts = []\<rparr>"

definition half_answered :: quiz where
  "half_answered = \<lparr>answers = [''A'', ''  '', []], currentQuestion = 2, voiceFeedback = [],
     hasSpoken = True, submitted = [], spokenTexts = []\<rparr>"

definition mid_quiz_props :: quiz_props where
  "mid_quiz_props =
     \<lparr>questions =
        [\<lparr>qtext = ''The Seine flows through Paris.'', qtype = TrueFalse, qoptions = []\<rparr>,
         \<lparr>qtext = ''What is the capital of France?'', qtype = MultipleChoice, qoptions = capitals\<rparr>,
         \<lparr>qtext = ''Name a river in France.'', qtype = ShortAnswer, qoptions = []\<rparr>],
      hasSpeak = True\<rparr>"



section \<open>The voice chat hook: silence-based segmentation\<close>

text \<open>
  \<open>recognition.onresult\<close> and the silence timer share two variables of the enclosing
  closure, \<open>currentTranscript\<close> and \<open>silenceTimer\<close>. The pending timeout is modelled by its
  deadline in milliseconds; \<open>onTranscript(text, isFinal)\<close> by the list of its calls.
\<close>

record recognition_result =
  transcript :: string
  isFinal :: bool

record result_event =
  resultIndex :: nat
  results :: "recognition_result list"

record segmenter =
  currentTranscript :: string
  silenceTimer :: "nat option"
  emitted :: "(string \<times> bool) list"

definition segmenter_init :: segmenter where
  "segmenter_init = \<lparr>currentTranscript = [], silenceTimer = None, emitted = []\<rparr>"

definition quietPeriod :: nat where
  "quietPeriod = 1200"

text \<open>The loop over \<open>event.results\<close> from \<open>event.resultIndex\<close>, on the pair
  \<open>(interimTranscript, finalTranscript)\<close>.\<close>

definition collect_step :: "string \<times> string \<Rightarrow> recognition_result \<Rightarrow> string \<times> string" where
  "collect_step acc r =
     (if isFinal r then (fst acc, snd acc @ transcript r @ '' '')
      else (fst acc @ transcript r, snd acc))"

definition collect :: "result_event \<Rightarrow> string \<times> string" where
  "collect ev = foldl collect_step ([], []) (drop (resultIndex ev) (results ev))"

definition onresult :: "nat \<Rightarrow> result_event \<Rightarrow> segmenter \<Rightarrow> segmenter" where
  "onresult now ev seg =
     (let (interimTranscript, finalTranscript) = collect ev;
          current = (if finalTranscript \<noteq> [] then currentTranscript seg @ finalTranscript
                     else currentTranscript seg);
          displayTranscript = current @ interimTranscript
      in \<lparr>currentTranscript = current,
          silenceTimer = (if trim current \<noteq> [] then Some (now + quietPeriod) else None),
          emitted = emitted seg @
            (if trim displayTranscript \<noteq> [] then [(trim displayTranscript, False)] else [])\<rparr>)"

text \<open>The callback of the timeout.\<close>

definition silence_detected :: "segmenter \<Rightarrow> segmenter" where
  "silence_detected seg =
     \<lparr>currentTranscript = [], silenceTimer = None,
      emitted = emitted seg @ [(trim (currentTranscript seg), True)]\<rparr>"

text \<open>\<open>recognition.onend\<close> clears a pending timeout and leaves the buffer as it is.\<close>

definition onend_clear :: "segmenter \<Rightarrow> segmenter" where
  "onend_clear seg = seg\<lparr>silenceTimer := None\<rparr>"

text \<open>
  Time reaches \<open>t\<close>: a pending timeout whose deadline has come runs. A recognition result
  that arrives \<open>gap\<close> milliseconds after the previous one is handled after the timeouts due
  by then.
\<close>

definition advance :: "nat \<Rightarrow> segmenter \<Rightarrow> segmenter" where
  "advance t seg =
     (case silenceTimer seg of
        Some deadline \<Rightarrow> if deadline \<le> t then silence_detected seg else seg
      | None \<Rightarrow> seg)"

definition arrive :: "nat \<times> segmenter \<Rightarrow> nat \<times> result_event \<Rightarrow> nat \<times> segmenter" where
  "arrive st e =
     (let t = fst st + fst e in (t, onresult t (snd e) (advance t (snd st))))"

definition arrivals :: "(nat \<times> result_event) list \<Rightarrow> nat \<times> segmenter" where
  "arrivals evs = foldl arrive (0, segmenter_init) evs"

definition quiet_after :: "nat \<Rightarrow> nat \<times> segmenter \<Rightarrow> segmenter" where
  "quiet_after gap st = advance (fst st + gap) (snd st)"

text \<open>The finalized fragments of a result event, and the calls of \<open>onTranscript\<close> that
  were final.\<close>

definition finalFragments :: "result_event \<Rightarrow> string list" where
  "finalFragments ev = map transcript (filter isFinal (drop (resultIndex ev) (results ev)))"

definition finalUtterances :: "segmenter \<Rightarrow> string list" where
  "finalUtterances seg = map fst (filter snd (emitted seg))"

text \<open>What a sequence of result events puts into the buffer: its finalized fragments in
  arrival order, each followed by one space.\<close>

definition buffered :: "(nat \<times> result_event) list \<Rightarrow> string" where
  "buffered evs = concat (map (\<lambda>t. t @ '' '') (concat (map (finalFragments \<circ> snd) evs)))"

definition interim :: "string \<Rightarrow> result_event" where
  "interim t = \<lparr>resultIndex = 0, results = [\<lparr>transcript = t, isFinal = False\<rparr>]\<rparr>"

definition final :: "string \<Rightarrow> result_event" where
  "final t = \<lparr>resultIndex = 0, results = [\<lparr>transcript = t, isFinal = True\<rparr>]\<rparr>"

definition hello_world :: "(nat \<times> result_event) list" where
  "hello_world =
     [(0, interim ''hel''), (300, final ''hello''), (700, interim ''wor''), (400, final ''world'')]"


section \<open>The chat interface: consuming the streamed reply\<close>

text \<open>
  \<open>handleVoiceInput\<close> posts the utterance and reads the reply chunk by chunk. Each chunk is
  split at newlines and each non-blank piece is given to \<open>JSON.parse\<close>. The host's parser is
  a parameter of the model: it returns the event a line decodes to, or \<^const>\<open>None\<close> when
  parsing the line (or reading the fields of the parsed value) throws.

  The state of the component is the record \<open>chat\<close>. Two of its states are set in ways that
  depend on when React renders. \<open>setMessages\<close> is given updater functions, which React
  queues and runs when it next renders; the updater of a reply reads the variable
  \<open>aiResponseText\<close>, which all replies of one request share, at that moment.
  \<open>responseToSpeak\<close> is one value: of several calls of \<open>setResponseToSpeak\<close> before a
  render the last one counts, and the effect that speaks it runs after the render. React
  renders while the handler waits for the network: after the user's message was queued,
  after each chunk, and after the \<open>catch\<close> block. \<open>console.warn\<close>, the timeout that opens
  the quiz, and \<open>speak\<close> are the lists of their arguments.
\<close>

datatype role = User | Assistant

record message =
  role :: role
  content :: string
  isVoice :: bool

record control_data =
  quiz :: "question list option"
  schedule_msg :: string
  new_badges :: "string list"

datatype stream_event =
    SessionInfo string
  | Response string
  | Control control_data
  | OtherEvent

type_synonym json_parse = "string \<Rightarrow> stream_event option"

text \<open>The updater functions that \<open>handleVoiceInput\<close> passes to \<open>setMessages\<close>.\<close>

datatype message_update =
    AppendUser string
  | AppendReply
  | AppendSchedule string
  | AppendFallback

record chat =
  messages :: "message list"
  sessionId :: string
  showQuiz :: bool
  quizVoiceInput :: "(string \<times> bool) option"
  interimTranscript :: string
  loading :: bool
  currentCharIndex :: int
  responseToSpeak :: "string option"
  aiResponseText :: string
  pendingMessages :: "message_update list"
  pendingSpeak :: "string option"
  speakCalls :: "string list"
  quizTimeouts :: "question list list"
  warnings :: "string list"

definition chat_init :: chat where
  "chat_init =
     \<lparr>messages = [], sessionId = [], showQuiz = False, quizVoiceInput = None,
      interimTranscript = [], loading = False, currentCharIndex = - 1,
      responseToSpeak = None, aiResponseText = [], pendingMessages = [], pendingSpeak = None,
      speakCalls = [], quizTimeouts = [], warnings = []\<rparr>"

definition user_message :: "string \<Rightarrow> message" where
  "user_message text = \<lparr>role = User, content = text, isVoice = False\<rparr>"

definition assistant_voice :: "string \<Rightarrow> message" where
  "assistant_voice text = \<lparr>role = Assistant, content = text, isVoice = True\<rparr>"

definition errorMsg :: string where
  "errorMsg = ''Sorry, I couldn't process that. Please try again!''"

definition fallback_message :: message where
  "fallback_message = \<lparr>role = Assistant, content = errorMsg, isVoice = False\<rparr>"

text \<open>The update of the last assistant message by a schedule confirmation.\<close>

definition append_schedule :: "string \<Rightarrow> message list \<Rightarrow> message list" where
  "append_schedule msg prev =
     (if prev \<noteq> [] \<and> role (last prev) = Assistant
      then butlast prev @ [(last prev)\<lparr>content := content (last prev) @ msg\<rparr>]
      else prev)"

text \<open>
  The updater of the \<open>catch\<close> block. It returns the new message list and, when it appends
  the fallback message, calls \<open>setResponseToSpeak\<close> with it.
\<close>

definition on_failure :: "message list \<times> string option \<Rightarrow> message list \<times> string option" where
  "on_failure state =
     (let prev = fst state in
      if prev \<noteq> [] \<and> role (last prev) = Assistant \<and> length (content (last prev)) > 0
      then state
      else (prev @ [\<lparr>role = Assistant, content = errorMsg, isVoice = False\<rparr>], Some errorMsg))"

text \<open>
  Running one queued updater. \<open>reply\<close> is the value of \<open>aiResponseText\<close> when React runs
  it; the second component is the value last given to \<open>setResponseToSpeak\<close>, if any.
\<close>

fun run_update ::
  "string \<Rightarrow> message list \<times> string option \<Rightarrow> message_update \<Rightarrow> message list \<times> string option" where
  "run_update reply (prev, sp) (AppendUser utterance) = (prev @ [user_message utterance], sp)"
| "run_update reply (prev, sp) AppendReply = (prev @ [assistant_voice reply], sp)"
| "run_update reply (prev, sp) (AppendSchedule msg) = (append_schedule msg prev, sp)"
| "run_update reply (prev, sp) AppendFallback = on_failure (prev, sp)"

text \<open>
  The effect on \<open>responseToSpeak\<close>: a non-empty text is handed to \<open>speak\<close> and the state is
  set back to \<open>null\<close>; \<open>null\<close> and the empty string are falsy and left alone.
\<close>

definition speech_effect :: "chat \<Rightarrow> chat" where
  "speech_effect st =
     (case responseToSpeak st of
        Some words \<Rightarrow>
          if words \<noteq> [] then st\<lparr>speakCalls := speakCalls st @ [words], responseToSpeak := None\<rparr>
          else st
      | None \<Rightarrow> st)"

text \<open>A render: React runs the queued updaters in order, commits the states, and runs the
  effect.\<close>

definition render :: "chat \<Rightarrow> chat" where
  "render st =
     (let result = foldl (run_update (aiResponseText st)) (messages st, pendingSpeak st)
                     (pendingMessages st)
      in speech_effect
           (st\<lparr>messages := fst result, pendingMessages := [], pendingSpeak := None,
               responseToSpeak := (case snd result of
                                     Some words \<Rightarrow> Some words
                                   | None \<Rightarrow> responseToSpeak st)\<rparr>))"

text \<open>
  The body of the \<open>try\<close> around one line, after \<open>JSON.parse\<close>. \<open>currentSessionId\<close> is read
  once, before the request; an empty string stands for no session.
\<close>

fun handle_event :: "string \<Rightarrow> chat \<Rightarrow> stream_event \<Rightarrow> chat" where
  "handle_event currentSessionId st (SessionInfo session_id) =
     (if session_id \<noteq> [] \<and> currentSessionId = [] then st\<lparr>sessionId := session_id\<rparr> else st)"
| "handle_event currentSessionId st (Response text) =
     st\<lparr>aiResponseText := text,
        pendingMessages := pendingMessages st @ [AppendReply],
        pendingSpeak := Some text\<rparr>"
| "handle_event currentSessionId st (Control newData) =
     (let st1 = (case quiz newData of
                   Some qs \<Rightarrow> st\<lparr>quizTimeouts := quizTimeouts st @ [qs]\<rparr>
                 | None \<Rightarrow> st)
      in if schedule_msg newData \<noteq> []
         then st1\<lparr>pendingMessages := pendingMessages st1 @ [AppendSchedule (schedule_msg newData)]\<rparr>
         else st1)"
| "handle_event currentSessionId st OtherEvent = st"

definition handle_line :: "json_parse \<Rightarrow> string \<Rightarrow> chat \<Rightarrow> string \<Rightarrow> chat" where
  "handle_line parse currentSessionId st line =
     (if trim line = [] then st
      else (case parse line of
              Some data \<Rightarrow> handle_event currentSessionId st data
            | None \<Rightarrow> st\<lparr>warnings := warnings st @ [line]\<rparr>))"

text \<open>One turn of the read loop: the lines of the chunk are handled without a pause, then
  the handler waits for the next chunk and React renders.\<close>

definition handle_chunk :: "json_parse \<Rightarrow> string \<Rightarrow> chat \<Rightarrow> string \<Rightarrow> chat" where
  "handle_chunk parse currentSessionId st chunk =
     render (foldl (handle_line parse currentSessionId) st (split_on CHR 0x0A chunk))"

definition read_loop :: "json_parse \<Rightarrow> string \<Rightarrow> string list \<Rightarrow> chat \<Rightarrow> chat" where
  "read_loop parse currentSessionId chunks st =
     foldl (handle_chunk parse currentSessionId) st chunks"

text \<open>The \<open>catch\<close> block of \<open>handleVoiceInput\<close>.\<close>

definition catch_block :: "chat \<Rightarrow> chat" where
  "catch_block st = render (st\<lparr>pendingMessages := pendingMessages st @ [AppendFallback]\<rparr>)"

text \<open>
  What the network does with the request: \<open>fetch\<close> rejects, the response is not \<open>ok\<close>, or
  the body arrives as chunks, after which the reader reports the end or rejects.
\<close>

datatype transport =
    FetchRejected
  | HttpError
  | Body "string list" bool

definition handleVoiceInput :: "json_parse \<Rightarrow> transport \<Rightarrow> string \<Rightarrow> bool \<Rightarrow> chat \<Rightarrow> chat" where
  "handleVoiceInput parse net utterance final_flag st =
     (if showQuiz st then st\<lparr>quizVoiceInput := Some (utterance, final_flag)\<rparr>
      else if \<not> final_flag then st\<lparr>interimTranscript := utterance\<rparr>
      else
        (let st1 = render (st\<lparr>interimTranscript := [], loading := True,
                             pendingMessages := pendingMessages st @ [AppendUser utterance],
                             currentCharIndex := - 1\<rparr>);
             st2 = (case net of
                      FetchRejected \<Rightarrow> catch_block st1
                    | HttpError \<Rightarrow> catch_block st1
                    | Body chunks failed \<Rightarrow>
                        (let st' = read_loop parse (sessionId st) chunks (st1\<lparr>aiResponseText := []\<rparr>)
                         in if failed then catch_block st' else st'))
         in st2\<lparr>loading := False\<rparr>))"

text \<open>The events of a chunk, and the events received before the transport failed: the
  non-blank lines that parse.\<close>

definition chunk_events :: "json_parse \<Rightarrow> string \<Rightarrow> stream_event list" where
  "chunk_events parse chunk =
     List.map_filter parse (filter (\<lambda>line. trim line \<noteq> []) (split_on CHR 0x0A chunk))"

definition received :: "json_parse \<Rightarrow> string list \<Rightarrow> stream_event list" where
  "received parse chunks =
     List.map_filter parse
       (filter (\<lambda>line. trim line \<noteq> []) (concat (map (split_on CHR 0x0A) chunks)))"

definition is_response :: "stream_event \<Rightarrow> bool" where
  "is_response ev = (case ev of Response _ \<Rightarrow> True | _ \<Rightarrow> False)"

text \<open>The texts of the replies among some events, in order.\<close>

definition replies :: "stream_event list \<Rightarrow> string list" where
  "replies evs = List.map_filter (\<lambda>ev. case ev of Response words \<Rightarrow> Some words | _ \<Rightarrow> None) evs"

text \<open>
  Delivery as the specification describes it, for comparison with the component: every
  event changes the message list when it is handled, a reply with its own text.
\<close>

fun deliver :: "message list \<Rightarrow> stream_event \<Rightarrow> message list" where
  "deliver ms (Response words) = ms @ [assistant_voice words]"
| "deliver ms (Control newData) =
     (if schedule_msg newData \<noteq> [] then append_schedule (schedule_msg newData) ms else ms)"
| "deliver ms (SessionInfo session_id) = ms"
| "deliver ms OtherEvent = ms"

text \<open>The updaters that handling some events queues.\<close>

fun update_of :: "stream_event \<Rightarrow> message_update list" where
  "update_of (Response words) = [AppendReply]"
| "update_of (Control newData) =
     (if schedule_msg newData \<noteq> [] then [AppendSchedule (schedule_msg newData)] else [])"
| "update_of (SessionInfo session_id) = []"
| "update_of OtherEvent = []"

definition updates :: "stream_event list \<Rightarrow> message_update list" where
  "updates evs = concat (map update_of evs)"

text \<open>The lines of a chunk that are logged and skipped.\<close>

definition skipped :: "json_parse \<Rightarrow> string \<Rightarrow> string list" where
  "skipped parse chunk =
     filter (\<lambda>line. trim line \<noteq> [] \<and> parse line = None) (split_on CHR 0x0A chunk)"

text \<open>The test of the \<open>catch\<close> block: the last message is a non-empty reply.\<close>

definition answered_last :: "message list \<Rightarrow> bool" where
  "answered_last ms = (ms \<noteq> [] \<and> role (last ms) = Assistant \<and> content (last ms) \<noteq> [])"

text \<open>A state in which no update is queued and the speech effect has nothing to speak.\<close>

definition rested :: "chat \<Rightarrow> bool" where
  "rested st =
     (pendingMessages st = [] \<and> pendingSpeak st = None
      \<and> (responseToSpeak st = None \<or> responseToSpeak st = Some []))"

subsection \<open>Sample streams\<close>

definition line_hello :: string where
  "line_hello = ''{'' @ [CHR 0x22] @ ''type'' @ [CHR 0x22] @ '':'' @ [CHR 0x22] @ ''response''
     @ [CHR 0x22] @ '','' @ [CHR 0x22] @ ''content'' @ [CHR 0x22] @ '':'' @ [CHR 0x22] @ ''Hello''
     @ [CHR 0x22] @ ''}''"

definition line_bad :: string where
  "line_bad = ''{'' @ [CHR 0x22] @ ''type'' @ [CHR 0x22] @ '':''"

definition line_bye :: string where
  "line_bye = ''{'' @ [CHR 0x22] @ ''type'' @ [CHR 0x22] @ '':'' @ [CHR 0x22] @ ''response''
     @ [CHR 0x22] @ '','' @ [CHR 0x22] @ ''content'' @ [CHR 0x22] @ '':'' @ [CHR 0x22] @ ''Bye''
     @ [CHR 0x22] @ ''}''"

definition line_empty :: string where
  "line_empty = ''{'' @ [CHR 0x22] @ ''type'' @ [CHR 0x22] @ '':'' @ [CHR 0x22] @ ''response''
     @ [CHR 0x22] @ '','' @ [CHR 0x22] @ ''content'' @ [CHR 0x22] @ '':'' @ [CHR 0x22]
     @ [CHR 0x22] @ ''}''"

text \<open>\<open>JSON.parse\<close> on the lines of the samples. A proper part of one of the three objects
  is not JSON, so every other line throws.\<close>

definition sample_parse :: json_parse where
  "sample_parse line =
     (if line = line_hello then Some (Response ''Hello'')
      else if line = line_bye then Some (Response ''Bye'')
      else if line = line_empty then Some (Response [])
      else None)"

definition whole_body :: string where
  "whole_body = line_hello @ [CHR 0x0A] @ line_bad @ [CHR 0x0A] @ line_bye @ [CHR 0x0A]"

definition split_chunks :: "string list" where
  "split_chunks =
     [take 20 line_hello, drop 20 line_hello @ [CHR 0x0A] @ line_bad @ [CHR 0x0A] @ line_bye @ [CHR 0x0A]]"

definition aligned_chunks :: "string list" where
  "aligned_chunks = [line_hello @ [CHR 0x0A] @ line_bad @ [CHR 0x0A], [CHR 0x0A], line_bye @ [CHR 0x0A]]"

definition empty_reply_chunks :: "string list" where
  "empty_reply_chunks = [line_hello @ [CHR 0x0A], line_empty @ [CHR 0x0A]]"


section \<open>The voice chat hook: what is spoken\<close>

text \<open>
  \<open>speak\<close> rewrites the text with six regular-expression replacements before it is
  synthesized. Each global replacement is a scan from left to right: where the pattern
  matches, the replacement is written and the scan goes on after the match; elsewhere one
  character is copied.
\<close>

text \<open>A match of a literal under the flag \<open>i\<close>; the rest of the subject after it.\<close>

fun matchIgnoreCase :: "string \<Rightarrow> string \<Rightarrow> string option" where
  "matchIgnoreCase [] s = Some s"
| "matchIgnoreCase (p # ps) [] = None"
| "matchIgnoreCase (p # ps) (c # cs) =
     (if toLowerChar c = toLowerChar p then matchIgnoreCase ps cs else None)"

text \<open>The dot of a regular expression matches all but line terminators.\<close>

definition isLineTerminator :: "char \<Rightarrow> bool" where
  "isLineTerminator c = (of_char c \<in> {10, 13 :: nat})"

text \<open>
  \<open>(.*?)\<close> followed by a closing literal: the shortest run of characters other than line
  terminators after which the literal matches. The result is the group and the rest.
\<close>

fun lazyUntil :: "string \<Rightarrow> string \<Rightarrow> (string \<times> string) option" where
  "lazyUntil close [] = (case matchIgnoreCase close [] of Some r \<Rightarrow> Some ([], r) | None \<Rightarrow> None)"
| "lazyUntil close (c # cs) =
     (case matchIgnoreCase close (c # cs) of
        Some r \<Rightarrow> Some ([], r)
      | None \<Rightarrow>
          (if isLineTerminator c then None
           else (case lazyUntil close cs of
                   Some (g, r) \<Rightarrow> Some (c # g, r)
                 | None \<Rightarrow> None)))"

text \<open>\<open>/<tag>(.*?)<\/tag>/gi\<close> at the head of the subject.\<close>

definition matchElement :: "string \<Rightarrow> string \<Rightarrow> string \<Rightarrow> (string \<times> string) option" where
  "matchElement opening closing s =
     (case matchIgnoreCase opening s of
        Some r \<Rightarrow> lazyUntil closing r
      | None \<Rightarrow> None)"

lemma matchIgnoreCase_length:
  "matchIgnoreCase p s = Some r \<Longrightarrow> length r + length p = length s"
  by (induction p s rule: matchIgnoreCase.induct) (auto split: if_splits)

lemma lazyUntil_length:
  "lazyUntil close s = Some (g, r) \<Longrightarrow> length r + length close \<le> length s"
proof (induction s arbitrary: g r)
  case Nil
  then show ?case
    by (auto split: option.splits dest: matchIgnoreCase_length)
next
  case (Cons c cs)
  show ?case
  proof (cases "matchIgnoreCase close (c # cs)")
    case (Some r')
    with Cons.prems show ?thesis
      by (auto dest: matchIgnoreCase_length)
  next
    case None
    with Cons.prems obtain g' where "lazyUntil close cs = Some (g', r)"
      by (auto split: if_splits option.splits)
    from Cons.IH [OF this] show ?thesis by simp
  qed
qed

lemma matchElement_length:
  "matchElement opening closing s = Some (g, r) \<Longrightarrow>
   length r + length opening + length closing \<le> length s"
  by (auto simp: matchElement_def split: option.splits
      dest!: matchIgnoreCase_length lazyUntil_length)

text \<open>\<open>text.replace(/<sup>(.*?)<\/sup>/gi, ' raised to the power of $1 ')\<close>\<close>

function replaceSup :: "string \<Rightarrow> string" where
  "replaceSup [] = []"
| "replaceSup (c # cs) =
     (case matchElement ''<sup>'' ''</sup>'' (c # cs) of
        Some (g, r) \<Rightarrow> '' raised to the power of '' @ g @ '' '' @ replaceSup r
      | None \<Rightarrow> c # replaceSup cs)"
  by pat_completeness auto
termination
  by (relation "measure length") (auto dest!: matchElement_length)

text \<open>\<open>speakText.replace(/<sub>(.*?)<\/sub>/gi, ' base $1 ')\<close>\<close>

function replaceSub :: "string \<Rightarrow> string" where
  "replaceSub [] = []"
| "replaceSub (c # cs) =
     (case matchElement ''<sub>'' ''</sub>'' (c # cs) of
        Some (g, r) \<Rightarrow> '' base '' @ g @ '' '' @ replaceSub r
      | None \<Rightarrow> c # replaceSub cs)"
  by pat_completeness auto
termination
  by (relation "measure length") (auto dest!: matchElement_length)

text \<open>
  \<open>/!\[([^\]]*)\]\([^)]+\)/\<close> at the head of the subject: the rest after the match. Both
  character classes are greedy and exclude the character that must follow them, so there
  is one way to match.
\<close>

definition matchImage :: "string \<Rightarrow> string option" where
  "matchImage s =
     (if startsWith s ''!['' then
        (let r1 = dropWhile (\<lambda>c. c \<noteq> CHR '']'') (drop 2 s) in
         if startsWith r1 ''](''  then
           (let url = takeWhile (\<lambda>c. c \<noteq> CHR '')'') (drop 2 r1);
                r2 = dropWhile (\<lambda>c. c \<noteq> CHR '')'') (drop 2 r1)
            in if url \<noteq> [] \<and> r2 \<noteq> [] then Some (tl r2) else None)
         else None)
      else None)"

lemma matchImage_length: "matchImage s = Some r \<Longrightarrow> length r < length s"
proof -
  assume m: "matchImage s = Some r"
  let ?r1 = "dropWhile (\<lambda>c. c \<noteq> CHR '']'') (drop 2 s)"
  let ?r2 = "dropWhile (\<lambda>c. c \<noteq> CHR '')'') (drop 2 ?r1)"
  from m have r: "r = tl ?r2" and ne: "?r2 \<noteq> []"
    by (auto simp: matchImage_def Let_def split: if_splits)
  have "length ?r2 \<le> length (drop 2 ?r1)"
    by (rule length_dropWhile_le)
  also have "\<dots> \<le> length ?r1" by simp
  also have "\<dots> \<le> length (drop 2 s)"
    by (rule length_dropWhile_le)
  also have "\<dots> \<le> length s" by simp
  finally have "length ?r2 \<le> length s" .
  with ne r show ?thesis
    by (cases ?r2) auto
qed

function removeImages :: "string \<Rightarrow> string" where
  "removeImages [] = []"
| "removeImages (c # cs) =
     (case matchImage (c # cs) of
        Some r \<Rightarrow> removeImages r
      | None \<Rightarrow> c # removeImages cs)"
  by pat_completeness auto
termination
  by (relation "measure length") (auto dest!: matchImage_length)

text \<open>\<open>/https?:\/\/\S+/\<close> at the head of the subject.\<close>

definition matchUrl :: "string \<Rightarrow> string option" where
  "matchUrl s =
     (let r = (if startsWith s ''https://'' then Some (drop 8 s)
               else if startsWith s ''http://'' then Some (drop 7 s)
               else None)
      in case r of
           Some after \<Rightarrow>
             if takeWhile (\<lambda>c. \<not> isWhiteSpace c) after \<noteq> []
             then Some (dropWhile (\<lambda>c. \<not> isWhiteSpace c) after) else None
         | None \<Rightarrow> None)"

lemma matchUrl_length: "matchUrl s = Some r \<Longrightarrow> length r < length s"
proof -
  assume m: "matchUrl s = Some r"
  then obtain after where r: "r = dropWhile (\<lambda>c. \<not> isWhiteSpace c) after"
    and a: "length after < length s"
    by (cases s) (auto simp: matchUrl_def Let_def split: if_splits option.splits)
  have "length r \<le> length after"
    unfolding r by (rule length_dropWhile_le)
  with a show ?thesis by simp
qed

function removeUrls :: "string \<Rightarrow> string" where
  "removeUrls [] = []"
| "removeUrls (c # cs) =
     (case matchUrl (c # cs) of
        Some r \<Rightarrow> removeUrls r
      | None \<Rightarrow> c # removeUrls cs)"
  by pat_completeness auto
termination
  by (relation "measure length") (auto dest!: matchUrl_length)

text \<open>\<open>/<[^>]*>/\<close> at the head of the subject.\<close>

definition matchTag :: "string \<Rightarrow> string option" where
  "matchTag s =
     (case s of
        c # cs \<Rightarrow>
          if c = CHR ''<'' \<and> dropWhile (\<lambda>c. c \<noteq> CHR ''>'') cs \<noteq> []
          then Some (tl (dropWhile (\<lambda>c. c \<noteq> CHR ''>'') cs)) else None
      | [] \<Rightarrow> None)"

lemma matchTag_length: "matchTag s = Some r \<Longrightarrow> length r < length s"
proof -
  assume m: "matchTag s = Some r"
  then obtain c cs where s: "s = c # cs" and r: "r = tl (dropWhile (\<lambda>c. c \<noteq> CHR ''>'') cs)"
    by (cases s) (auto simp: matchTag_def split: if_splits)
  have "length (dropWhile (\<lambda>c. c \<noteq> CHR ''>'') cs) \<le> length cs"
    by (rule length_dropWhile_le)
  then show ?thesis
    unfolding s r by simp
qed

function stripTags :: "string \<Rightarrow> string" where
  "stripTags [] = []"
| "stripTags (c # cs) =
     (case matchTag (c # cs) of
        Some r \<Rightarrow> CHR '' '' # stripTags r
      | None \<Rightarrow> c # stripTags cs)"
  by pat_completeness auto
termination
  by (relation "measure length") (auto dest!: matchTag_length)

text \<open>\<open>.replace(/\s+/g, ' ')\<close>\<close>

function collapseSpaces :: "string \<Rightarrow> string" where
  "collapseSpaces [] = []"
| "collapseSpaces (c # cs) =
     (if isWhiteSpace c then CHR '' '' # collapseSpaces (dropWhile isWhiteSpace cs)
      else c # collapseSpaces cs)"
  by pat_completeness auto
termination
  by (relation "measure length") (auto simp: le_imp_less_Suc length_dropWhile_le)

definition sanitize :: "string \<Rightarrow> string" where
  "sanitize text =
     trim (collapseSpaces (stripTags (removeUrls (removeImages (replaceSub (replaceSup text))))))"

text \<open>A tag is left in a string when a \<open>>\<close> follows its first \<open><\<close>: the pattern
  \<open>/<[^>]*>/\<close> matches somewhere.\<close>

definition containsTag :: "string \<Rightarrow> bool" where
  "containsTag s = (CHR ''>'' \<in> set (dropWhile (\<lambda>c. c \<noteq> CHR ''<'') s))"

text \<open>White space is normalized: every white space character is one space between two
  other characters.\<close>

fun singleSpaced :: "string \<Rightarrow> bool" where
  "singleSpaced [] = True"
| "singleSpaced [c] = (isWhiteSpace c \<longrightarrow> c = CHR '' '')"
| "singleSpaced (c # d # cs) =
     ((isWhiteSpace c \<longrightarrow> c = CHR '' '' \<and> \<not> isWhiteSpace d) \<and> singleSpaced (d # cs))"

definition wsNormalized :: "string \<Rightarrow> bool" where
  "wsNormalized s =
     (singleSpaced s \<and> (s \<noteq> [] \<longrightarrow> \<not> isWhiteSpace (hd s) \<and> \<not> isWhiteSpace (last s)))"

text \<open>The angle brackets of a string, in order.\<close>

definition skeleton :: "string \<Rightarrow> string" where
  "skeleton s = filter (\<lambda>c. c = CHR ''<'' \<or> c = CHR ''>'') s"


section \<open>The voice chat hook: taking turns\<close>

text \<open>
  The hook keeps two pieces of React state, \<open>isListening\<close> and \<open>isSpeaking\<close>, and refs that
  its callbacks read. The recognition and synthesis objects belong to the browser; the
  model records the calls the hook makes on them, in order, and takes their events as
  inputs. A callback runs to completion before the next one starts, so each is one step.
  The \<open>await\<close> inside \<open>initializeVoiceMode\<close> is not a step of its own: the microphone
  request and the start of recognition happen together.
\<close>

datatype host_call = RecStart | RecAbort | SynthCancel | SynthSpeak string

record hook =
  isListening :: bool
  isSpeaking :: bool
  voiceError :: "string option"
  isSupported :: bool
  isEnabled :: bool
  isEnabledRef :: bool
  isSpeakingRef :: bool
  isUnmountedRef :: bool
  recognitionRef :: bool
  synthRef :: bool
  hostCalls :: "host_call list"
  resumeTimeouts :: nat
  boundaryCalls :: "int list"

text \<open>The hook after mounting with the feature off, as the chat interface mounts it.\<close>

definition hook_init :: "bool \<Rightarrow> hook" where
  "hook_init supported =
     \<lparr>isListening = False, isSpeaking = False,
      voiceError = (if supported then None
        else Some ''Voice chat is not supported in this browser. Please use Chrome or Edge.''),
      isSupported = supported, isEnabled = False, isEnabledRef = False, isSpeakingRef = False,
      isUnmountedRef = False, recognitionRef = False, synthRef = supported,
      hostCalls = [], resumeTimeouts = 0, boundaryCalls = []\<rparr>"

definition call :: "host_call list \<Rightarrow> hook \<Rightarrow> hook" where
  "call cs s = s\<lparr>hostCalls := hostCalls s @ cs\<rparr>"

text \<open>\<open>initializeVoiceMode\<close>; the argument is the message of the error thrown while asking
  for the microphone or starting recognition, if any.\<close>

definition initializeVoiceMode :: "string option \<Rightarrow> hook \<Rightarrow> hook" where
  "initializeVoiceMode failure s =
     (if \<not> isSupported s then s
      else if \<not> isEnabledRef s \<or> isUnmountedRef s then s
      else (case failure of
              None \<Rightarrow> call [RecStart] (s\<lparr>recognitionRef := True\<rparr>)
            | Some msg \<Rightarrow> s\<lparr>voiceError := Some (''Failed to start: '' @ msg), isListening := False\<rparr>))"

definition pauseListening :: "hook \<Rightarrow> hook" where
  "pauseListening s = (if recognitionRef s then call [RecAbort] s else s)"

definition resumeListening :: "hook \<Rightarrow> hook" where
  "resumeListening s =
     (if recognitionRef s \<and> \<not> isSpeakingRef s \<and> isEnabledRef s then call [RecStart] s else s)"

definition speak :: "string \<Rightarrow> bool \<Rightarrow> hook \<Rightarrow> hook" where
  "speak text onBoundary s =
     (if \<not> synthRef s \<or> text = [] then s
      else call [SynthCancel, SynthSpeak (sanitize text)]
             (pauseListening (s\<lparr>isSpeakingRef := True, isSpeaking := True\<rparr>)))"

text \<open>The handlers of an utterance; the argument tells whether \<open>speak\<close> was given
  \<open>onBoundary\<close>.\<close>

definition speech_ended :: "bool \<Rightarrow> hook \<Rightarrow> hook" where
  "speech_ended onBoundary s =
     s\<lparr>isSpeakingRef := False, isSpeaking := False,
       boundaryCalls := boundaryCalls s @ (if onBoundary then [- 1] else [])\<rparr>"

definition utterance_onend :: "bool \<Rightarrow> hook \<Rightarrow> hook" where
  "utterance_onend onBoundary s =
     (speech_ended onBoundary s)\<lparr>resumeTimeouts := resumeTimeouts s + 1\<rparr>"

definition utterance_onerror :: "bool \<Rightarrow> hook \<Rightarrow> hook" where
  "utterance_onerror onBoundary s = resumeListening (speech_ended onBoundary s)"

text \<open>The timeout of 100 ms set by \<open>utterance.onend\<close>.\<close>

definition resume_timeout :: "hook \<Rightarrow> hook" where
  "resume_timeout s =
     (if resumeTimeouts s > 0 then resumeListening (s\<lparr>resumeTimeouts := resumeTimeouts s - 1\<rparr>)
      else s)"

text \<open>The handlers of the recognition object, as far as they touch the state of the hook;
  what \<open>onresult\<close> and \<open>onend\<close> do to the transcript buffer is in the section on
  segmentation.\<close>

definition recognition_onstart :: "hook \<Rightarrow> hook" where
  "recognition_onstart s = s\<lparr>isListening := True, voiceError := None\<rparr>"

definition recognition_onerror :: "string \<Rightarrow> hook \<Rightarrow> hook" where
  "recognition_onerror e s =
     (if e = ''no-speech'' \<or> e = ''aborted'' then s
      else if e = ''not-allowed''
      then s\<lparr>voiceError := Some ''Microphone access denied.'', isListening := False\<rparr>
      else s)"

definition recognition_onend :: "hook \<Rightarrow> hook" where
  "recognition_onend s =
     (if \<not> isSpeakingRef s \<and> isEnabledRef s \<and> \<not> isUnmountedRef s then call [RecStart] s
      else s\<lparr>isListening := False\<rparr>)"

definition stopSpeaking :: "hook \<Rightarrow> hook" where
  "stopSpeaking s =
     (call (if synthRef s then [SynthCancel] else []) s)\<lparr>isSpeakingRef := False, isSpeaking := False\<rparr>"

definition stopListening :: "hook \<Rightarrow> hook" where
  "stopListening s = (call (if recognitionRef s then [RecAbort] else []) s)\<lparr>isListening := False\<rparr>"

text \<open>
  The cleanup of the effect that depends on \<open>isEnabled\<close>. It reads \<open>isEnabled\<close> from the
  render that installed it.
\<close>

definition cleanup :: "bool \<Rightarrow> hook \<Rightarrow> hook" where
  "cleanup enabledThen s =
     (if \<not> enabledThen
      then (call ((if recognitionRef s then [RecAbort] else [])
                  @ (if synthRef s then [SynthCancel] else [])) s)
             \<lparr>isListening := False, isSpeaking := False, isSpeakingRef := False\<rparr>
      else s)"

text \<open>
  The \<open>isEnabled\<close> argument of the hook changes: the cleanup of the previous run of the
  effect, then the effects in order (the ref is synchronized, then voice mode starts when
  the feature is on).
\<close>

definition set_enabled :: "bool \<Rightarrow> string option \<Rightarrow> hook \<Rightarrow> hook" where
  "set_enabled b failure s =
     (if isEnabled s = b then s
      else
        (let s1 = (cleanup (isEnabled s) s)\<lparr>isEnabled := b, isEnabledRef := b, isUnmountedRef := False\<rparr>
         in if b \<and> isSupported s1 then initializeVoiceMode failure s1 else s1))"

definition unmount :: "hook \<Rightarrow> hook" where
  "unmount s =
     (let s1 = (cleanup (isEnabled s) s)\<lparr>isUnmountedRef := True\<rparr>
      in call ((if recognitionRef s1 then [RecAbort] else [])
               @ (if synthRef s1 then [SynthCancel] else [])) s1)"

datatype hook_event =
    SetEnabled bool "string option"
  | StartListening "string option"
  | Speak string bool
  | StopSpeaking
  | StopListening
  | PauseListening
  | ResumeListening
  | OnStart
  | OnEnd
  | OnError string
  | UtteranceEnd bool
  | UtteranceError bool
  | ResumeTimeout
  | Unmount

fun hook_step :: "hook \<Rightarrow> hook_event \<Rightarrow> hook" where
  "hook_step s (SetEnabled b failure) = set_enabled b failure s"
| "hook_step s (StartListening failure) = initializeVoiceMode failure s"
| "hook_step s (Speak text onBoundary) = speak text onBoundary s"
| "hook_step s StopSpeaking = stopSpeaking s"
| "hook_step s StopListening = stopListening s"
| "hook_step s PauseListening = pauseListening s"
| "hook_step s ResumeListening = resumeListening s"
| "hook_step s OnStart = recognition_onstart s"
| "hook_step s OnEnd = recognition_onend s"
| "hook_step s (OnError e) = recognition_onerror e s"
| "hook_step s (UtteranceEnd onBoundary) = utterance_onend onBoundary s"
| "hook_step s (UtteranceError onBoundary) = utterance_onerror onBoundary s"
| "hook_step s ResumeTimeout = resume_timeout s"
| "hook_step s Unmount = unmount s"

definition hook_run :: "hook_event list \<Rightarrow> hook \<Rightarrow> hook" where
  "hook_run evs s = foldl hook_step s evs"

text \<open>
  The utterances handed to the synthesizer since its queue was last emptied by \<open>cancel()\<close>:
  the ones that can still be speaking or waiting.
\<close>

definition queue_step :: "string list \<Rightarrow> host_call \<Rightarrow> string list" where
  "queue_step q c = (case c of SynthCancel \<Rightarrow> [] | SynthSpeak t \<Rightarrow> q @ [t] | _ \<Rightarrow> q)"

definition queued :: "host_call list \<Rightarrow> string list" where
  "queued cs = foldl queue_step [] cs"

text \<open>How often recognition was started after the last utterance was handed over.\<close>

definition starts_after_speech :: "host_call list \<Rightarrow> nat" where
  "starts_after_speech cs =
     length (filter (\<lambda>c. c = RecStart)
       (rev (takeWhile (\<lambda>c. case c of SynthSpeak _ \<Rightarrow> False | _ \<Rightarrow> True) (rev cs))))"

subsection \<open>Sample sessions\<close>

definition listening_then_speak :: "hook_event list" where
  "listening_then_speak = [SetEnabled True None, OnStart, Speak ''Hello'' True]"

text \<open>Two calls of \<open>speak\<close> in quick succession: the synthesizer reports the first
  utterance as cancelled (an error event) and later the end of the second.\<close>

definition speak_twice :: "hook_event list" where
  "speak_twice =
     [SetEnabled True None, OnStart, Speak ''one'' False, OnEnd, Speak ''two'' False,
      UtteranceError False, UtteranceEnd False, ResumeTimeout]"

text \<open>The same two calls up to the error event of the cancelled first utterance, followed
  by the start event of the recognition that the error handler started.\<close>

definition overlap_session :: "hook_event list" where
  "overlap_session =
     [SetEnabled True None, OnStart, Speak ''one'' False, OnEnd, Speak ''two'' False,
      UtteranceError False, OnStart]"

definition speak_once :: "hook_event list" where
  "speak_once =
     [SetEnabled True None, OnStart, Speak ''one'' False, OnEnd, UtteranceEnd False, ResumeTimeout]"

text \<open>The hook while it listens: the feature was enabled and recognition has started.\<close>

definition listening :: hook where
  "listening = hook_run [SetEnabled True None, OnStart] (hook_init True)"

text \<open>A superscript whose content ends with a line break.\<close>

definition multiline_sup :: string where
  "multiline_sup = ''x<sup>2'' @ [CHR 0x0A] @ ''</sup>''"


section \<open>Properties of the quiz modal\<close>

subsection \<open>Submitting\<close>

lemma findIndex_None: "findIndex P xs = None \<longleftrightarrow> (\<forall>x \<in> set xs. \<not> P x)"
  by (induction xs) auto

lemma findIndex_Some:
  "findIndex P xs = Some i \<Longrightarrow> i < length xs \<and> P (xs ! i) \<and> (\<forall>j < i. \<not> P (xs ! j))"
proof (induction xs arbitrary: i)
  case Nil
  then show ?case by simp
next
  case (Cons x xs)
  show ?case
  proof (cases "P x")
    case True
    with Cons.prems show ?thesis by simp
  next
    case False
    with Cons.prems obtain k where k: "findIndex P xs = Some k" "i = Suc k"
      by auto
    from Cons.IH [OF k(1)] have ih: "k < length xs" "P (xs ! k)" "\<forall>j < k. \<not> P (xs ! j)"
      by simp_all
    have "\<not> P ((x # xs) ! j)" if "j < i" for j
      using that False ih(3) k(2) by (cases j) auto
    with ih k(2) show ?thesis by simp
  qed
qed

lemma trim_samples:
  "trim ''A'' = ''A''" "trim ''True'' = ''True''" "trim ''  '' = []" "trim [] = []"
  by code_simp+

text \<open>
  Claim C10. Submit calls \<open>onSubmit(answers)\<close> exactly when every answer is non-empty after
  trimming. When some answer is empty, \<open>onSubmit\<close> is not called, the answers stay as they
  are, and the current question becomes the first unanswered one.
\<close>

theorem handleSubmit_all_or_first_unanswered:
  "((\<forall>a \<in> set (answers s). trim a \<noteq> []) \<longrightarrow>
      handleSubmit s = s\<lparr>submitted := submitted s @ [answers s]\<rparr>)
   \<and> ((\<exists>a \<in> set (answers s). trim a = []) \<longrightarrow>
      submitted (handleSubmit s) = submitted s
      \<and> answers (handleSubmit s) = answers s
      \<and> currentQuestion (handleSubmit s) < length (answers s)
      \<and> trim (answers s ! currentQuestion (handleSubmit s)) = []
      \<and> (\<forall>j < currentQuestion (handleSubmit s). trim (answers s ! j) \<noteq> []))"
proof (cases "findIndex (\<lambda>a. trim a = []) (answers s)")
  case None
  then have "\<forall>a \<in> set (answers s). trim a \<noteq> []"
    by (simp add: findIndex_None)
  with None show ?thesis
    by (simp add: handleSubmit_def)
next
  case (Some i)
  from findIndex_Some [OF Some]
  have i: "i < length (answers s)" "trim (answers s ! i) = []"
    "\<forall>j < i. trim (answers s ! j) \<noteq> []"
    by simp_all
  then have ex: "\<exists>a \<in> set (answers s). trim a = []"
    using nth_mem by blast
  then have "\<not> (\<forall>a \<in> set (answers s). trim a \<noteq> [])"
    by blast
  then have first: "(\<forall>a \<in> set (answers s). trim a \<noteq> []) \<longrightarrow>
      handleSubmit s = s\<lparr>submitted := submitted s @ [answers s]\<rparr>"
    by blast
  have h: "handleSubmit s =
      s\<lparr>voiceFeedback := ''Please answer question '' @ show_nat (i + 1) @ '' first.'',
        currentQuestion := i, hasSpoken := False\<rparr>"
    using Some by (simp add: handleSubmit_def)
  have "submitted (handleSubmit s) = submitted s
      \<and> answers (handleSubmit s) = answers s
      \<and> currentQuestion (handleSubmit s) < length (answers s)
      \<and> trim (answers s ! currentQuestion (handleSubmit s)) = []
      \<and> (\<forall>j < currentQuestion (handleSubmit s). trim (answers s ! j) \<noteq> [])"
    unfolding h using i by simp
  with first show ?thesis by blast
qed

theorem handleSubmit_witness:
  "handleSubmit answered = answered\<lparr>submitted := [[''A'', ''True'']]\<rparr>
   \<and> submitted (handleSubmit half_answered) = []
   \<and> answers (handleSubmit half_answered) = [''A'', ''  '', []]
   \<and> currentQuestion (handleSubmit half_answered) = 1"
proof -
  have a: "\<forall>a \<in> set (answers answered). trim a \<noteq> []"
    by (simp add: answered_def trim_samples)
  have b: "\<exists>a \<in> set (answers half_answered). trim a = []"
    by (simp add: half_answered_def trim_samples)
  have c: "currentQuestion (handleSubmit half_answered) = 1"
    by (simp add: handleSubmit_def half_answered_def trim_samples)
  from handleSubmit_all_or_first_unanswered [of answered] a
  have "handleSubmit answered = answered\<lparr>submitted := submitted answered @ [answers answered]\<rparr>"
    by blast
  then have first: "handleSubmit answered = answered\<lparr>submitted := [[''A'', ''True'']]\<rparr>"
    by (simp add: answered_def)
  from handleSubmit_all_or_first_unanswered [of half_answered] b
  have "submitted (handleSubmit half_answered) = submitted half_answered
      \<and> answers (handleSubmit half_answered) = answers half_answered"
    by blast
  then have "submitted (handleSubmit half_answered) = []
      \<and> answers (handleSubmit half_answered) = [''A'', ''  '', []]"
    by (simp add: half_answered_def)
  with first show ?thesis using c by simp
qed

subsection \<open>Matching a transcript\<close>

lemma normalize_paris: "normalizeTranscript ''I think it's paris'' = ''i think it's paris''"
  by code_simp

lemma normalize_option_b: "normalizeTranscript ''option b'' = ''option b''"
  by code_simp

lemma normalize_purple:
  "normalizeTranscript ''purple monkey dishwasher'' = ''purple monkey dishwasher''"
  by code_simp



lemma not_command_paris:
  "\<not> isNextCommand ''i think it's paris''" "\<not> isPreviousCommand ''i think it's paris''"
  "\<not> isSubmitCommand ''i think it's paris''" "\<not> isRepeatCommand ''i think it's paris''"
  by code_simp+

lemma not_command_option_b:
  "\<not> isNextCommand ''option b''" "\<not> isPreviousCommand ''option b''"
  "\<not> isSubmitCommand ''option b''" "\<not> isRepeatCommand ''option b''"
  by code_simp+

lemma not_command_purple:
  "\<not> isNextCommand ''purple monkey dishwasher''"
  "\<not> isPreviousCommand ''purple monkey dishwasher''"
  "\<not> isSubmitCommand ''purple monkey dishwasher''"
  "\<not> isRepeatCommand ''purple monkey dishwasher''"
  by code_simp+


lemma detect_paris: "detectMultipleChoice ''i think it's paris'' capitals = Some ''A''"
  by code_simp

lemma detect_option_b: "detectMultipleChoice ''option b'' capitals = Some ''B''"
  by code_simp

lemma detect_purple: "detectMultipleChoice ''purple monkey dishwasher'' capitals = None"
  by code_simp


text \<open>
  Claim C6. On a multiple-choice question whose options are \<open>A) Paris\<close>, \<open>B) London\<close>,
  \<open>C) Berlin\<close>, \<open>D) Madrid\<close>, the transcript \<open>I think it's paris\<close> sets the answer \<open>A\<close>,
  \<open>option b\<close> sets the answer \<open>B\<close>, and \<open>purple monkey dishwasher\<close> sets no answer: it only
  shows the hint that asks again.
\<close>

theorem capitals_commands:
  assumes "currentQuestion s < length (questions p)"
    and "qtype (questions p ! currentQuestion s) = MultipleChoice"
    and "qoptions (questions p ! currentQuestion s) = capitals"
  shows "processVoiceCommand p ''I think it's paris'' s =
           Some ((handleAnswerChange (currentQuestion s) ''A'' s)\<lparr>voiceFeedback := ''Selected: A ''\<rparr>)
       \<and> processVoiceCommand p ''option b'' s =
           Some ((handleAnswerChange (currentQuestion s) ''B'' s)\<lparr>voiceFeedback := ''Selected: B ''\<rparr>)
       \<and> processVoiceCommand p ''purple monkey dishwasher'' s =
           Some (s\<lparr>voiceFeedback := didntCatch\<rparr>)"
  using assms
  by (simp add: processVoiceCommand_def answerCommand_def normalize_paris normalize_option_b
      normalize_purple not_command_paris not_command_option_b not_command_purple
      detect_paris detect_option_b detect_purple)

theorem capitals_commands_witness:
  "processVoiceCommand sample_props ''I think it's paris'' (quiz_init sample_props) =
     Some ((quiz_init sample_props)\<lparr>answers := [''A'', []], voiceFeedback := ''Selected: A ''\<rparr>)
   \<and> processVoiceCommand sample_props ''option b'' (quiz_init sample_props) =
     Some ((quiz_init sample_props)\<lparr>answers := [''B'', []], voiceFeedback := ''Selected: B ''\<rparr>)
   \<and> processVoiceCommand sample_props ''purple monkey dishwasher'' (quiz_init sample_props) =
     Some ((quiz_init sample_props)\<lparr>voiceFeedback := didntCatch\<rparr>)"
  using capitals_commands [of "quiz_init sample_props" sample_props]
  by (simp add: sample_props_def quiz_init_def handleAnswerChange_def)

subsection \<open>Navigation by voice\<close>














text \<open>
  The runs of the effect after one spoken \<open>next\<close>, with the first of three questions
  active. The first run moves to the second question. That changes the state, the
  component renders, and the effect runs again: the second run moves to the third
  question, where a further run changes nothing.
\<close>

lemma next_handled_again:
  "map (\<lambda>n. map_option currentQuestion
              (effect_runs mid_quiz_props (Some (''next'', True)) n (quiz_init mid_quiz_props)))
       [0, 1, 2, 3]
     = [Some 0, Some 1, Some 2, Some 2]"
  by code_simp

subsection \<open>Fuzzy matching of the options\<close>

lemma fuzzyMatch_snoc: "fuzzyMatch lower (xs @ [x]) = fuzzy_step lower (fuzzyMatch lower xs) x"
  by (simp add: fuzzyMatch_def)

lemma calculateSimilarity_le_1: "calculateSimilarity a b \<le> 1"
  by (simp add: calculateSimilarity_def Let_def divide_le_eq_1)

lemma fuzzy_step_plain:
  "\<not> containsOption lower opt \<Longrightarrow>
   fuzzy_step lower best opt =
     (if snd best < calculateSimilarity lower (optionText opt)
      then (optionLetter opt, calculateSimilarity lower (optionText opt)) else best)"
  by (simp add: fuzzy_step_def Let_def)

lemma fuzzy_step_contained:
  "containsOption lower opt \<Longrightarrow> fuzzy_step lower best opt = (optionLetter opt, 1)"
  by (simp add: fuzzy_step_def Let_def)

lemma fuzzy_step_changes:
  "fuzzy_step lower best opt \<noteq> best \<Longrightarrow>
   snd best < calculateSimilarity lower (optionText opt) \<or> containsOption lower opt"
  by (auto simp: fuzzy_step_def Let_def split: if_splits)

lemma fuzzy_first_best:
  assumes "\<forall>opt \<in> set opts. \<not> containsOption lower opt"
  shows "(\<forall>opt \<in> set opts. calculateSimilarity lower (optionText opt) \<le> snd (fuzzyMatch lower opts))
     \<and> 0 \<le> snd (fuzzyMatch lower opts)
     \<and> (if 0 < snd (fuzzyMatch lower opts)
         then \<exists>i < length opts.
                fst (fuzzyMatch lower opts) = optionLetter (opts ! i)
                \<and> calculateSimilarity lower (optionText (opts ! i)) = snd (fuzzyMatch lower opts)
                \<and> (\<forall>j < i. calculateSimilarity lower (optionText (opts ! j))
                              < snd (fuzzyMatch lower opts))
         else fuzzyMatch lower opts = (None, 0))"
  using assms
proof (induction opts rule: rev_induct)
  case Nil
  then show ?case by (simp add: fuzzyMatch_def)
next
  case (snoc x xs)
  let ?sc = "\<lambda>opt. calculateSimilarity lower (optionText opt)"
  obtain bm bs where r: "fuzzyMatch lower xs = (bm, bs)"
    by (cases "fuzzyMatch lower xs")
  from snoc.prems have nx: "\<not> containsOption lower x" and nxs: "\<forall>opt \<in> set xs. \<not> containsOption lower opt"
    by simp_all
  from snoc.IH [OF nxs] r
  have le: "\<forall>opt \<in> set xs. ?sc opt \<le> bs" and nonneg: "0 \<le> bs"
    and first: "0 < bs \<Longrightarrow> \<exists>i < length xs. bm = optionLetter (xs ! i) \<and> ?sc (xs ! i) = bs
                    \<and> (\<forall>j < i. ?sc (xs ! j) < bs)"
    and none: "\<not> 0 < bs \<Longrightarrow> (bm, bs) = (None, 0)"
    by (simp_all split: if_splits)
  show ?case
  proof (cases "bs < ?sc x")
    case True
    then have step: "fuzzyMatch lower (xs @ [x]) = (optionLetter x, ?sc x)"
      by (simp add: fuzzyMatch_snoc r fuzzy_step_plain [OF nx])
    have pos: "0 < ?sc x" using True nonneg by simp
    have "?sc (xs ! j) < ?sc x" if "j < length xs" for j
    proof -
      from that have "xs ! j \<in> set xs" by simp
      with le have "?sc (xs ! j) \<le> bs" by blast
      with True show ?thesis by simp
    qed
    then have below: "\<forall>j < length xs. ?sc ((xs @ [x]) ! j) < ?sc x"
      by (simp add: nth_append)
    have "\<forall>opt \<in> set (xs @ [x]). ?sc opt \<le> ?sc x"
      using le True by auto
    moreover have "\<exists>i < length (xs @ [x]).
        optionLetter x = optionLetter ((xs @ [x]) ! i) \<and> ?sc ((xs @ [x]) ! i) = ?sc x
        \<and> (\<forall>j < i. ?sc ((xs @ [x]) ! j) < ?sc x)"
      using below by (intro exI [of _ "length xs"]) simp
    ultimately show ?thesis
      unfolding step using pos by simp
  next
    case False
    then have step: "fuzzyMatch lower (xs @ [x]) = (bm, bs)"
      by (simp add: fuzzyMatch_snoc r fuzzy_step_plain [OF nx])
    have all: "\<forall>opt \<in> set (xs @ [x]). ?sc opt \<le> bs"
      using le False by auto
    show ?thesis
    proof (cases "0 < bs")
      case True
      from first [OF True] obtain i where i: "i < length xs" "bm = optionLetter (xs ! i)"
        "?sc (xs ! i) = bs" "\<forall>j < i. ?sc (xs ! j) < bs"
        by blast
      have "\<forall>j < i. ?sc ((xs @ [x]) ! j) < bs"
        using i(1) i(4) by (simp add: nth_append)
      with i have "\<exists>i < length (xs @ [x]).
        bm = optionLetter ((xs @ [x]) ! i) \<and> ?sc ((xs @ [x]) ! i) = bs
        \<and> (\<forall>j < i. ?sc ((xs @ [x]) ! j) < bs)"
        by (intro exI [of _ i]) (simp add: nth_append)
      with all True nonneg show ?thesis
        unfolding step by simp
    next
      case False
      with none all nonneg show ?thesis
        unfolding step by simp
    qed
  qed
qed

lemma fuzzy_after_contained:
  "snd best = 1 \<Longrightarrow> \<forall>opt \<in> set later. \<not> containsOption lower opt \<Longrightarrow>
   foldl (fuzzy_step lower) best later = best"
proof (induction later)
  case Nil
  then show ?case by simp
next
  case (Cons x xs)
  then have "fuzzy_step lower best x = best"
    using calculateSimilarity_le_1 [of lower "optionText x"]
    by (simp add: fuzzy_step_plain)
  with Cons show ?case by simp
qed

lemma fuzzy_last_contained:
  assumes "containsOption lower opt" and "\<forall>y \<in> set later. \<not> containsOption lower y"
  shows "fuzzyMatch lower (earlier @ opt # later) = (optionLetter opt, 1)"
proof -
  have "fuzzyMatch lower (earlier @ opt # later) =
      foldl (fuzzy_step lower) (fuzzy_step lower (fuzzyMatch lower earlier) opt) later"
    by (simp add: fuzzyMatch_def)
  also have "\<dots> = foldl (fuzzy_step lower) (optionLetter opt, 1) later"
    by (simp add: fuzzy_step_contained [OF assms(1)])
  also have "\<dots> = (optionLetter opt, 1)"
    using assms(2) by (simp add: fuzzy_after_contained)
  finally show ?thesis .
qed

text \<open>
  Claim C7, as stated: a later option replaces the current best only when its score is
  strictly higher. With the transcript \<open>paris london\<close> the option \<open>A) Paris\<close> is the
  first to reach the winning score 1; the later option \<open>B) London\<close>, whose similarity is
  only one half, still replaces it, because its text occurs in the transcript.
\<close>

theorem fuzzy_tie_counterexample:
  "fuzzyMatch ''paris london'' [''A) Paris''] = (Some ''A'', 1)
   \<and> calculateSimilarity ''paris london'' (optionText ''B) London'') = 1 / 2
   \<and> fuzzyMatch ''paris london'' [''A) Paris'', ''B) London''] = (Some ''B'', 1)
   \<and> detectMultipleChoice (normalizeTranscript ''Paris, London'') [''A) Paris'', ''B) London'']
       = Some ''B''"
  by code_simp

text \<open>
  Claim C7, amended. One round of the loop changes the current best only if the option's
  score is strictly higher than the best score, or the option's text (longer than two
  characters) occurs in the transcript; such a containment match always replaces the best
  and sets the score to 1. So when no option is contained in the transcript, no option
  scores above the result and the selected option is the first one, in order, that reaches
  the highest score; when some option is contained, the last contained option is selected.
\<close>

theorem fuzzy_tie_break:
  "(fuzzy_step lower best opt \<noteq> best \<longrightarrow>
      snd best < calculateSimilarity lower (optionText opt) \<or> containsOption lower opt)
   \<and> ((\<forall>x \<in> set opts. \<not> containsOption lower x) \<longrightarrow>
      (\<forall>x \<in> set opts. calculateSimilarity lower (optionText x) \<le> snd (fuzzyMatch lower opts))
      \<and> (if 0 < snd (fuzzyMatch lower opts)
          then \<exists>i < length opts.
                 fst (fuzzyMatch lower opts) = optionLetter (opts ! i)
                 \<and> calculateSimilarity lower (optionText (opts ! i)) = snd (fuzzyMatch lower opts)
                 \<and> (\<forall>j < i. calculateSimilarity lower (optionText (opts ! j))
                               < snd (fuzzyMatch lower opts))
          else fuzzyMatch lower opts = (None, 0)))
   \<and> (containsOption lower hit \<and> (\<forall>y \<in> set later. \<not> containsOption lower y) \<longrightarrow>
      fuzzyMatch lower (earlier @ hit # later) = (optionLetter hit, 1))"
proof (intro conjI impI)
  assume "fuzzy_step lower best opt \<noteq> best"
  then show "snd best < calculateSimilarity lower (optionText opt) \<or> containsOption lower opt"
    by (rule fuzzy_step_changes)
next
  assume none: "\<forall>x \<in> set opts. \<not> containsOption lower x"
  from fuzzy_first_best [OF none]
  show "\<forall>x \<in> set opts. calculateSimilarity lower (optionText x) \<le> snd (fuzzyMatch lower opts)"
    by (rule conjunct1)
  from fuzzy_first_best [OF none]
  show "if 0 < snd (fuzzyMatch lower opts)
          then \<exists>i < length opts.
                 fst (fuzzyMatch lower opts) = optionLetter (opts ! i)
                 \<and> calculateSimilarity lower (optionText (opts ! i)) = snd (fuzzyMatch lower opts)
                 \<and> (\<forall>j < i. calculateSimilarity lower (optionText (opts ! j))
                               < snd (fuzzyMatch lower opts))
          else fuzzyMatch lower opts = (None, 0)"
    by (rule conjunct2 [THEN conjunct2])
next
  assume "containsOption lower hit \<and> (\<forall>y \<in> set later. \<not> containsOption lower y)"
  then show "fuzzyMatch lower (earlier @ hit # later) = (optionLetter hit, 1)"
    using fuzzy_last_contained [of lower hit later earlier] by (elim conjE)
qed

lemma berlim_facts:
  "\<forall>x \<in> set capitals. \<not> containsOption ''berlim'' x"
  "fuzzyMatch ''berlim'' capitals = (Some ''C'', 5 / 6)"
  by code_simp+

lemma paris_london_facts:
  "fuzzy_step ''paris london'' (Some ''A'', 1) ''B) London'' = (Some ''B'', 1)"
  "containsOption ''paris london'' ''B) London''"
  "\<forall>y \<in> set [''C) Berlin'', ''D) Madrid'']. \<not> containsOption ''paris london'' y"
  by code_simp+

theorem fuzzy_tie_break_witness:
  "containsOption ''paris london'' ''B) London''
   \<and> fuzzyMatch ''paris london'' capitals = (Some ''B'', 1)
   \<and> fuzzyMatch ''berlim'' capitals = (Some ''C'', 5 / 6)
   \<and> (\<exists>i < length capitals.
         Some ''C'' = optionLetter (capitals ! i)
         \<and> calculateSimilarity ''berlim'' (optionText (capitals ! i)) = 5 / 6
         \<and> (\<forall>j < i. calculateSimilarity ''berlim'' (optionText (capitals ! j)) < 5 / 6))"
proof -
  have ne: "fuzzy_step ''paris london'' (Some ''A'', 1) ''B) London'' \<noteq> (Some ''A'', 1)"
    by (simp add: paris_london_facts)
  have lt: "\<not> snd (Some ''A'', 1 :: rat)
              < calculateSimilarity ''paris london'' (optionText ''B) London'')"
    by code_simp
  note t1 = fuzzy_tie_break [of "''paris london''" "(Some ''A'', 1)" "''B) London''"
      "[]" "''B) London''" "[''C) Berlin'', ''D) Madrid'']" "[''A) Paris'']"]
  note t2 = fuzzy_tie_break [of "''berlim''" "(Some ''A'', 1)" "''B) London''"
      capitals "''B) London''" "[]" "[]"]
  have c: "containsOption ''paris london'' ''B) London''"
  proof (rule disjE [OF t1 [THEN conjunct1, THEN mp, OF ne]])
    assume "snd (Some ''A'', 1 :: rat)
              < calculateSimilarity ''paris london'' (optionText ''B) London'')"
    with lt show ?thesis by (rule notE)
  next
    assume "containsOption ''paris london'' ''B) London''"
    then show ?thesis .
  qed
  have "fuzzyMatch ''paris london'' ([''A) Paris''] @ ''B) London'' # [''C) Berlin'', ''D) Madrid''])
          = (optionLetter ''B) London'', 1)"
    by (rule t1 [THEN conjunct2, THEN conjunct2, THEN mp])
      (rule conjI [OF paris_london_facts(2) paris_london_facts(3)])
  then have pl: "fuzzyMatch ''paris london'' capitals = (Some ''B'', 1)"
    by (simp add: capitals_def optionLetter_def)
  from t2 [THEN conjunct2, THEN conjunct1, THEN mp, OF berlim_facts(1), THEN conjunct2]
  have ex: "\<exists>i < length capitals.
         Some ''C'' = optionLetter (capitals ! i)
         \<and> calculateSimilarity ''berlim'' (optionText (capitals ! i)) = 5 / 6
         \<and> (\<forall>j < i. calculateSimilarity ''berlim'' (optionText (capitals ! j)) < 5 / 6)"
    unfolding berlim_facts(2) by simp
  from c pl berlim_facts(2) ex show ?thesis
    by (intro conjI)
qed

subsection \<open>Silence-based segmentation\<close>

lemma collect_step_snd:
  "snd (foldl collect_step acc rs) = snd acc @ concat (map (\<lambda>t. t @ '' '') (map transcript (filter isFinal rs)))"
  by (induction rs arbitrary: acc) (simp_all add: collect_step_def)

lemma collect_final:
  "snd (collect ev) = concat (map (\<lambda>t. t @ '' '') (finalFragments ev))"
  by (simp add: collect_def finalFragments_def collect_step_snd)

lemma onresult_current:
  "currentTranscript (onresult now ev seg)
     = currentTranscript seg @ concat (map (\<lambda>t. t @ '' '') (finalFragments ev))"
  by (simp add: onresult_def Let_def split_beta collect_final)

lemma onresult_timer:
  "silenceTimer (onresult now ev seg)
     = (if trim (currentTranscript (onresult now ev seg)) \<noteq> [] then Some (now + quietPeriod) else None)"
  by (simp add: onresult_def Let_def split_beta)

lemma onresult_finals:
  "finalUtterances (onresult now ev seg) = finalUtterances seg"
  by (simp add: onresult_def Let_def split_beta finalUtterances_def)

lemma arrivals_below_threshold:
  assumes "\<forall>e \<in> set evs. fst e < quietPeriod"
  shows "currentTranscript (snd (arrivals evs)) = buffered evs
    \<and> finalUtterances (snd (arrivals evs)) = []
    \<and> silenceTimer (snd (arrivals evs)) =
        (if evs \<noteq> [] \<and> trim (buffered evs) \<noteq> []
         then Some (fst (arrivals evs) + quietPeriod) else None)"
  using assms
proof (induction evs rule: rev_induct)
  case Nil
  then show ?case
    by (simp add: arrivals_def segmenter_init_def buffered_def finalUtterances_def)
next
  case (snoc e evs)
  obtain t seg where st: "arrivals evs = (t, seg)"
    by (cases "arrivals evs")
  from snoc have ih: "currentTranscript seg = buffered evs" "finalUtterances seg = []"
    "silenceTimer seg = (if evs \<noteq> [] \<and> trim (buffered evs) \<noteq> [] then Some (t + quietPeriod) else None)"
    and gap: "fst e < quietPeriod"
    by (simp_all add: st)
  have adv: "advance (t + fst e) seg = seg"
    using ih(3) gap by (simp add: advance_def)
  have step: "arrivals (evs @ [e]) = (t + fst e, onresult (t + fst e) (snd e) seg)"
    by (simp add: arrivals_def arrive_def Let_def adv st [unfolded arrivals_def])
  have buf: "buffered (evs @ [e]) = buffered evs @ concat (map (\<lambda>t. t @ '' '') (finalFragments (snd e)))"
    by (simp add: buffered_def)
  show ?case
    unfolding step
    by (simp add: onresult_current onresult_finals onresult_timer ih buf)
qed


lemma hello_world_gaps: "\<forall>e \<in> set hello_world. fst e < quietPeriod"
  by (simp add: hello_world_def quietPeriod_def)

lemma hello_world_run:
  "finalUtterances (quiet_after 1500 (arrivals hello_world)) = [''hello world'']"
  "currentTranscript (quiet_after 1500 (arrivals hello_world)) = []"
  "concat (map (finalFragments \<circ> snd) hello_world) = [''hello'', ''world'']"
  "trim (buffered hello_world) = ''hello world''"
  by code_simp+

text \<open>
  Claim C2, as stated: the final utterance is the concatenation of the finalized fragments.
  The fragments \<open>hello\<close> and \<open>world\<close>, finalized 1100 ms apart and followed by 1500 ms of
  silence, give the one final utterance \<open>hello world\<close>, not \<open>helloworld\<close>: the buffer
  receives a space after every fragment and is trimmed when it is emitted.
\<close>

theorem debounce_counterexample:
  "finalUtterances (quiet_after 1500 (arrivals hello_world)) = [''hello world'']
   \<and> concat (concat (map (finalFragments \<circ> snd) hello_world)) = ''helloworld''"
  by (simp add: hello_world_run)

text \<open>
  Claim C2, amended. Result events arrive with gaps below the quiet period of 1200 ms and
  are followed by a longer gap. Then no final utterance fires before the long gap, and in
  it exactly one fires when the buffer is not blank: its content is the finalized fragments
  in arrival order, each followed by one space, concatenated and trimmed (interim fragments
  are absent from it), and the buffer is empty afterwards. When the buffer is blank nothing
  is emitted as final. No timeout is pending at the end.
\<close>

theorem debounce_one_final:
  assumes "\<forall>e \<in> set evs. fst e < quietPeriod" and "quietPeriod < gap"
  shows "finalUtterances (snd (arrivals evs)) = []
    \<and> finalUtterances (quiet_after gap (arrivals evs)) =
        (if trim (buffered evs) = [] then [] else [trim (buffered evs)])
    \<and> (trim (buffered evs) \<noteq> [] \<longrightarrow> currentTranscript (quiet_after gap (arrivals evs)) = [])
    \<and> silenceTimer (quiet_after gap (arrivals evs)) = None"
proof -
  note inv = arrivals_below_threshold [OF assms(1)]
  show ?thesis
  proof (cases "evs \<noteq> [] \<and> trim (buffered evs) \<noteq> []")
    case True
    with inv have timer: "silenceTimer (snd (arrivals evs)) = Some (fst (arrivals evs) + quietPeriod)"
      by simp
    with assms(2) have "quiet_after gap (arrivals evs) = silence_detected (snd (arrivals evs))"
      by (simp add: quiet_after_def advance_def)
    with inv True show ?thesis
      by (simp add: silence_detected_def finalUtterances_def)
  next
    case False
    with inv have timer: "silenceTimer (snd (arrivals evs)) = None"
      by simp
    then have q: "quiet_after gap (arrivals evs) = snd (arrivals evs)"
      by (simp add: quiet_after_def advance_def)
    have "trim (buffered evs) = []"
    proof (cases "evs = []")
      case True
      then show ?thesis by (simp add: buffered_def trim_def)
    next
      case False
      with \<open>\<not> (evs \<noteq> [] \<and> trim (buffered evs) \<noteq> [])\<close> show ?thesis by simp
    qed
    with inv timer show ?thesis
      unfolding q by simp
  qed
qed

theorem debounce_one_final_witness:
  "finalUtterances (snd (arrivals hello_world)) = []
   \<and> finalUtterances (quiet_after 1500 (arrivals hello_world)) = [''hello world'']
   \<and> currentTranscript (quiet_after 1500 (arrivals hello_world)) = []
   \<and> silenceTimer (quiet_after 1500 (arrivals hello_world)) = None"
proof -
  have gap: "quietPeriod < 1500"
    by (simp add: quietPeriod_def)
  from debounce_one_final [OF hello_world_gaps gap] show ?thesis
    by (simp add: hello_world_run)
qed


section \<open>Properties of the stream consumer\<close>

subsection \<open>Chunks as events\<close>

lemma render_warnings: "render (st\<lparr>warnings := w\<rparr>) = (render st)\<lparr>warnings := w\<rparr>"
  by (simp add: render_def speech_effect_def Let_def split: option.splits)

lemma handle_event_warnings:
  "handle_event sid (st\<lparr>warnings := w\<rparr>) ev = (handle_event sid st ev)\<lparr>warnings := w\<rparr>"
  by (cases ev) (simp_all add: Let_def split: option.splits)

lemma lines_as_events:
  "foldl (handle_line parse sid) st ls =
     (foldl (handle_event sid) st (List.map_filter parse (filter (\<lambda>l. trim l \<noteq> []) ls)))
       \<lparr>warnings := warnings st @ filter (\<lambda>l. trim l \<noteq> [] \<and> parse l = None) ls\<rparr>"
proof (induction ls rule: rev_induct)
  case Nil
  then show ?case by (simp add: List.map_filter_simps)
next
  case (snoc l ls)
  show ?case
  proof (cases "trim l = []")
    case True
    then show ?thesis
      using snoc by (simp add: handle_line_def)
  next
    case False
    show ?thesis
    proof (cases "parse l")
      case None
      with False snoc show ?thesis
        by (simp add: handle_line_def List.map_filter_def)
    next
      case (Some ev)
      with False snoc show ?thesis
        by (simp add: handle_line_def List.map_filter_def handle_event_warnings)
    qed
  qed
qed

lemma handle_chunk_events:
  "handle_chunk parse sid st chunk =
     (render (foldl (handle_event sid) st (chunk_events parse chunk)))
       \<lparr>warnings := warnings st @ skipped parse chunk\<rparr>"
  by (simp add: handle_chunk_def lines_as_events render_warnings chunk_events_def skipped_def)

lemma received_chunks: "received parse chunks = concat (map (chunk_events parse) chunks)"
  by (induction chunks) (simp_all add: received_def chunk_events_def List.map_filter_def)

lemma replies_simps:
  "replies [] = []"
  "replies (xs @ ys) = replies xs @ replies ys"
  "replies [Response c] = [c]"
  "replies [SessionInfo i] = []"
  "replies [Control d] = []"
  "replies [OtherEvent] = []"
  by (simp_all add: replies_def List.map_filter_def)

lemma replies_concat: "replies (concat xss) = concat (map replies xss)"
  by (induction xss) (simp_all add: replies_simps)

lemma updates_simps:
  "updates [] = []"
  "updates (xs @ ys) = updates xs @ updates ys"
  "updates [ev] = update_of ev"
  by (simp_all add: updates_def)

lemma event_step:
  "messages (handle_event sid s ev) = messages s"
  "responseToSpeak (handle_event sid s ev) = responseToSpeak s"
  "speakCalls (handle_event sid s ev) = speakCalls s"
  "pendingMessages (handle_event sid s ev) = pendingMessages s @ update_of ev"
  "aiResponseText (handle_event sid s ev)
     = (if replies [ev] = [] then aiResponseText s else last (replies [ev]))"
  "pendingSpeak (handle_event sid s ev)
     = (if replies [ev] = [] then pendingSpeak s else Some (last (replies [ev])))"
  by (cases ev; simp add: Let_def replies_simps split: option.splits)+

lemma events_fold:
  "messages (foldl (handle_event sid) st evs) = messages st"
  "responseToSpeak (foldl (handle_event sid) st evs) = responseToSpeak st"
  "speakCalls (foldl (handle_event sid) st evs) = speakCalls st"
  "pendingMessages (foldl (handle_event sid) st evs) = pendingMessages st @ updates evs"
  "aiResponseText (foldl (handle_event sid) st evs)
     = (if replies evs = [] then aiResponseText st else last (replies evs))"
  "pendingSpeak (foldl (handle_event sid) st evs)
     = (if replies evs = [] then pendingSpeak st else Some (last (replies evs)))"
  by (induction evs rule: rev_induct; simp add: event_step replies_simps updates_simps)+


lemma run_updates_deliver:
  "\<forall>c \<in> set (replies evs). c = r \<Longrightarrow>
   foldl (run_update r) (ms, sp) (updates evs) = (foldl deliver ms evs, sp)"
proof (induction evs rule: rev_induct)
  case Nil
  then show ?case by (simp add: updates_simps)
next
  case (snoc ev evs)
  then have ih: "foldl (run_update r) (ms, sp) (updates evs) = (foldl deliver ms evs, sp)"
    and last: "\<forall>c \<in> set (replies [ev]). c = r"
    by (simp_all add: replies_simps)
  show ?case
    using last by (cases ev) (simp_all add: updates_simps ih replies_simps)
qed

lemma single_reply: "length xs \<le> 1 \<Longrightarrow> \<forall>c \<in> set xs. c = last xs"
  by (cases xs) auto

lemma render_rested: "rested (render s)"
  by (simp add: render_def speech_effect_def rested_def Let_def split: option.splits)

lemma render_fields:
  "warnings (render s) = warnings s"
  "sessionId (render s) = sessionId s"
  "showQuiz (render s) = showQuiz s"
  "aiResponseText (render s) = aiResponseText s"
  by (simp_all add: render_def speech_effect_def Let_def split: option.splits)

lemma render_messages:
  "messages (render s)
     = fst (foldl (run_update (aiResponseText s)) (messages s, pendingSpeak s) (pendingMessages s))"
  by (simp add: render_def speech_effect_def Let_def split: option.splits)

lemma render_speakCalls:
  "speakCalls (render s) = speakCalls s @
     (case (case snd (foldl (run_update (aiResponseText s)) (messages s, pendingSpeak s)
                        (pendingMessages s)) of
              Some words \<Rightarrow> Some words
            | None \<Rightarrow> responseToSpeak s) of
        Some words \<Rightarrow> if words \<noteq> [] then [words] else []
      | None \<Rightarrow> [])"
  by (simp add: render_def speech_effect_def Let_def split: option.splits)

lemma render_chunk:
  assumes "rested st" and "length (replies evs) \<le> 1"
  shows "messages (render (foldl (handle_event sid) st evs)) = foldl deliver (messages st) evs"
    and "speakCalls (render (foldl (handle_event sid) st evs))
           = speakCalls st @ filter (\<lambda>words. words \<noteq> []) (replies evs)"
proof -
  let ?s = "foldl (handle_event sid) st evs"
  have same: "\<forall>c \<in> set (replies evs). c = aiResponseText ?s"
    using single_reply [OF assms(2)] by (simp add: events_fold)
  have pend: "pendingMessages ?s = updates evs"
    using assms(1) by (simp add: events_fold rested_def)
  have run: "foldl (run_update (aiResponseText ?s)) (messages ?s, pendingSpeak ?s) (pendingMessages ?s)
      = (foldl deliver (messages st) evs, pendingSpeak ?s)"
    unfolding pend using run_updates_deliver [OF same] by (simp add: events_fold)
  show "messages (render ?s) = foldl deliver (messages st) evs"
    by (simp add: render_messages run)
  show "speakCalls (render ?s) = speakCalls st @ filter (\<lambda>words. words \<noteq> []) (replies evs)"
  proof (cases "replies evs")
    case Nil
    then show ?thesis
      unfolding render_speakCalls run snd_conv
      using assms(1) by (auto simp: events_fold rested_def)
  next
    case (Cons c cs)
    with assms(2) have "replies evs = [c]" by simp
    then show ?thesis
      unfolding render_speakCalls run snd_conv
      by (simp add: events_fold)
  qed
qed

lemma chunk_step:
  assumes "rested st" and "length (replies (chunk_events parse chunk)) \<le> 1"
  shows "messages (handle_chunk parse sid st chunk)
           = foldl deliver (messages st) (chunk_events parse chunk)"
    and "speakCalls (handle_chunk parse sid st chunk)
           = speakCalls st @ filter (\<lambda>words. words \<noteq> []) (replies (chunk_events parse chunk))"
    and "warnings (handle_chunk parse sid st chunk) = warnings st @ skipped parse chunk"
    and "rested (handle_chunk parse sid st chunk)"
proof -
  show "messages (handle_chunk parse sid st chunk)
           = foldl deliver (messages st) (chunk_events parse chunk)"
    using render_chunk(1) [OF assms] by (simp add: handle_chunk_events)
  show "speakCalls (handle_chunk parse sid st chunk)
           = speakCalls st @ filter (\<lambda>words. words \<noteq> []) (replies (chunk_events parse chunk))"
    using render_chunk(2) [OF assms] by (simp add: handle_chunk_events)
  show "warnings (handle_chunk parse sid st chunk) = warnings st @ skipped parse chunk"
    by (simp add: handle_chunk_events)
  show "rested (handle_chunk parse sid st chunk)"
    by (simp add: handle_chunk_def render_rested)
qed

lemma read_loop_single:
  assumes "rested st"
    and "\<forall>chunk \<in> set chunks. length (replies (chunk_events parse chunk)) \<le> 1"
  shows "messages (read_loop parse sid chunks st) = foldl deliver (messages st) (received parse chunks)
    \<and> speakCalls (read_loop parse sid chunks st)
         = speakCalls st @ filter (\<lambda>words. words \<noteq> []) (replies (received parse chunks))
    \<and> warnings (read_loop parse sid chunks st) = warnings st @ concat (map (skipped parse) chunks)
    \<and> rested (read_loop parse sid chunks st)"
  using assms(2)
proof (induction chunks rule: rev_induct)
  case Nil
  then show ?case
    using assms(1) by (simp add: read_loop_def received_chunks replies_simps)
next
  case (snoc chunk chunks)
  let ?s = "read_loop parse sid chunks st"
  from snoc have ih: "messages ?s = foldl deliver (messages st) (received parse chunks)"
      "speakCalls ?s = speakCalls st @ filter (\<lambda>words. words \<noteq> []) (replies (received parse chunks))"
      "warnings ?s = warnings st @ concat (map (skipped parse) chunks)"
      "rested ?s"
    and one: "length (replies (chunk_events parse chunk)) \<le> 1"
    by simp_all
  have step: "read_loop parse sid (chunks @ [chunk]) st = handle_chunk parse sid ?s chunk"
    by (simp add: read_loop_def)
  show ?case
    unfolding step
    using chunk_step [OF ih(4) one, of sid]
    by (simp add: ih received_chunks replies_simps)
qed


lemma handleVoiceInput_final:
  "\<not> showQuiz st \<Longrightarrow>
   handleVoiceInput parse net u True st =
     (let st1 = render (st\<lparr>interimTranscript := [], loading := True,
                          pendingMessages := pendingMessages st @ [AppendUser u],
                          currentCharIndex := - 1\<rparr>)
      in (case net of
            FetchRejected \<Rightarrow> catch_block st1
          | HttpError \<Rightarrow> catch_block st1
          | Body chunks failed \<Rightarrow>
              (if failed then catch_block (read_loop parse (sessionId st) chunks (st1\<lparr>aiResponseText := []\<rparr>))
               else read_loop parse (sessionId st) chunks (st1\<lparr>aiResponseText := []\<rparr>)))\<lparr>loading := False\<rparr>)"
  by (simp add: handleVoiceInput_def Let_def split: transport.splits)

lemma first_render:
  assumes "rested st"
  shows "messages (render (st\<lparr>interimTranscript := [], loading := True,
                          pendingMessages := pendingMessages st @ [AppendUser u],
                          currentCharIndex := - 1\<rparr>)) = messages st @ [user_message u]"
    and "speakCalls (render (st\<lparr>interimTranscript := [], loading := True,
                          pendingMessages := pendingMessages st @ [AppendUser u],
                          currentCharIndex := - 1\<rparr>)) = speakCalls st"
  using assms by (auto simp: render_messages render_speakCalls rested_def)

lemma rested_reply: "rested s \<Longrightarrow> rested (s\<lparr>aiResponseText := r\<rparr>)"
  by (simp add: rested_def)

lemma append_schedule_answered:
  "answered_last ms \<Longrightarrow> answered_last (append_schedule msg ms)"
  by (simp add: answered_last_def append_schedule_def)

lemma append_schedule_user:
  "ms \<noteq> [] \<Longrightarrow> role (last ms) = User \<Longrightarrow> append_schedule msg ms = ms"
  by (simp add: append_schedule_def)

lemma deliver_no_reply:
  "replies evs = [] \<Longrightarrow> ms \<noteq> [] \<Longrightarrow> role (last ms) = User \<Longrightarrow> foldl deliver ms evs = ms"
proof (induction evs rule: rev_induct)
  case Nil
  then show ?case by simp
next
  case (snoc ev evs)
  then have ih: "foldl deliver ms evs = ms" and none: "replies [ev] = []"
    by (simp_all add: replies_simps)
  from none snoc.prems(2,3) show ?case
    by (cases ev) (simp_all add: ih replies_simps append_schedule_user)
qed

lemma deliver_keeps_answer:
  "replies evs = [] \<Longrightarrow> answered_last ms \<Longrightarrow> answered_last (foldl deliver ms evs)"
proof (induction evs rule: rev_induct)
  case Nil
  then show ?case by simp
next
  case (snoc ev evs)
  then have ih: "answered_last (foldl deliver ms evs)" and none: "replies [ev] = []"
    by (simp_all add: replies_simps)
  from none show ?case
    by (cases ev) (simp_all add: ih replies_simps append_schedule_answered)
qed

lemma run_update_schedule:
  "fst (run_update r state (AppendSchedule msg)) = append_schedule msg (fst state)"
  by (cases state) simp

lemma run_update_reply: "fst (run_update r state AppendReply) = fst state @ [assistant_voice r]"
  by (cases state) simp

lemma run_updates_answered:
  "r \<noteq> [] \<Longrightarrow> replies evs \<noteq> [] \<Longrightarrow>
   answered_last (fst (foldl (run_update r) (ms, sp) (updates evs)))"
proof (induction evs rule: rev_induct)
  case Nil
  then show ?case by (simp add: replies_simps)
next
  case (snoc ev evs)
  show ?case
  proof (cases "replies [ev] = []")
    case True
    with snoc have ih: "answered_last (fst (foldl (run_update r) (ms, sp) (updates evs)))"
      by (simp add: replies_simps)
    from True show ?thesis
      by (cases ev)
        (simp_all add: updates_simps replies_simps run_update_schedule
          append_schedule_answered ih)
  next
    case False
    then obtain c where "ev = Response c"
      by (cases ev) (simp_all add: replies_simps)
    then show ?thesis
      using snoc.prems(1)
      by (simp add: updates_simps run_update_reply answered_last_def assistant_voice_def)
  qed
qed

lemma chunk_answered:
  assumes "rested s"
    and "if replies evs = [] then answered_last (messages s) else last (replies evs) \<noteq> []"
  shows "answered_last (messages (render (foldl (handle_event sid) s evs)))"
proof -
  let ?s = "foldl (handle_event sid) s evs"
  have pend: "pendingMessages ?s = updates evs"
    using assms(1) by (simp add: events_fold rested_def)
  show ?thesis
  proof (cases "replies evs = []")
    case True
    then have "\<forall>c \<in> set (replies evs). c = aiResponseText ?s"
      by simp
    from run_updates_deliver [OF this, of "messages ?s" "pendingSpeak ?s"]
    have "messages (render ?s) = foldl deliver (messages s) evs"
      unfolding render_messages pend by (simp add: events_fold)
    with True assms(2) show ?thesis
      by (simp add: deliver_keeps_answer)
  next
    case False
    with assms(2) have "aiResponseText ?s \<noteq> []"
      by (simp add: events_fold)
    from run_updates_answered [OF this False, of "messages ?s" "pendingSpeak ?s"]
    show ?thesis
      unfolding render_messages pend .
  qed
qed

lemma read_loop_rested: "rested st \<Longrightarrow> rested (read_loop parse sid chunks st)"
  by (induction chunks rule: rev_induct) (simp_all add: read_loop_def handle_chunk_def render_rested)

lemma loop_answered:
  assumes "rested st"
  shows "replies (received parse chunks) \<noteq> [] \<Longrightarrow> last (replies (received parse chunks)) \<noteq> [] \<Longrightarrow>
    answered_last (messages (read_loop parse sid chunks st))"
proof (induction chunks rule: rev_induct)
  case Nil
  then show ?case by (simp add: received_chunks replies_simps)
next
  case (snoc chunk chunks)
  let ?s = "read_loop parse sid chunks st"
  let ?evs = "chunk_events parse chunk"
  have step: "read_loop parse sid (chunks @ [chunk]) st = handle_chunk parse sid ?s chunk"
    by (simp add: read_loop_def)
  have all: "replies (received parse (chunks @ [chunk])) = replies (received parse chunks) @ replies ?evs"
    by (simp add: received_chunks replies_simps)
  have "if replies ?evs = [] then answered_last (messages ?s) else last (replies ?evs) \<noteq> []"
  proof (cases "replies ?evs = []")
    case True
    with snoc.prems all have "replies (received parse chunks) \<noteq> []"
      and "last (replies (received parse chunks)) \<noteq> []"
      by simp_all
    with snoc.IH True show ?thesis by simp
  next
    case False
    with snoc.prems(2) all show ?thesis by simp
  qed
  from chunk_answered [OF read_loop_rested [OF assms] this]
  show ?case
    unfolding step by (simp add: handle_chunk_events)
qed

lemma catch_answered:
  assumes "rested s" and "answered_last (messages s)"
  shows "catch_block s = s"
proof -
  from assms(1) have p: "pendingMessages s = []" "pendingSpeak s = None"
    and r: "responseToSpeak s = None \<or> responseToSpeak s = Some []"
    by (simp_all add: rested_def)
  have "on_failure (messages s, None) = (messages s, None)"
    using assms(2) by (simp add: on_failure_def answered_last_def)
  then have "catch_block s = speech_effect
      (s\<lparr>pendingMessages := [], messages := messages s, pendingSpeak := None,
          responseToSpeak := responseToSpeak s\<rparr>)"
    by (simp add: catch_block_def render_def p)
  also have "\<dots> = speech_effect s"
    using p by (cases s) simp
  also have "\<dots> = s"
    using r by (auto simp: speech_effect_def)
  finally show ?thesis .
qed

lemma catch_user:
  assumes "rested s" and "messages s \<noteq> []" and "role (last (messages s)) = User"
  shows "messages (catch_block s) = messages s @ [fallback_message]"
    and "speakCalls (catch_block s) = speakCalls s @ [errorMsg]"
proof -
  from assms(1) have p: "pendingMessages s = []" "pendingSpeak s = None"
    by (simp_all add: rested_def)
  have f: "on_failure (messages s, None) = (messages s @ [fallback_message], Some errorMsg)"
    using assms(2,3) by (simp add: on_failure_def fallback_message_def)
  show "messages (catch_block s) = messages s @ [fallback_message]"
    by (simp add: catch_block_def render_messages p f)
  show "speakCalls (catch_block s) = speakCalls s @ [errorMsg]"
    by (simp add: catch_block_def render_speakCalls p f errorMsg_def)
qed

subsection \<open>Delivery and the failure policy\<close>

lemma sample_lines:
  "sample_parse line_hello = Some (Response ''Hello'')"
  "sample_parse line_bad = None"
  "sample_parse line_bye = Some (Response ''Bye'')"
  "concat split_chunks = whole_body"
  by code_simp+

lemma split_chunks_run:
  "messages (handleVoiceInput sample_parse (Body split_chunks False) ''Hi'' True chat_init)
     = [user_message ''Hi'', assistant_voice ''Bye'']"
  "speakCalls (handleVoiceInput sample_parse (Body split_chunks False) ''Hi'' True chat_init)
     = [''Bye'']"
  "warnings (handleVoiceInput sample_parse (Body split_chunks False) ''Hi'' True chat_init)
     = [take 20 line_hello, drop 20 line_hello, line_bad]"
  by code_simp+

lemma whole_body_run:
  "messages (handleVoiceInput sample_parse (Body [whole_body] False) ''Hi'' True chat_init)
     = [user_message ''Hi'', assistant_voice ''Bye'', assistant_voice ''Bye'']"
  "speakCalls (handleVoiceInput sample_parse (Body [whole_body] False) ''Hi'' True chat_init)
     = [''Bye'']"
  by code_simp+

lemma empty_reply_run:
  "received sample_parse empty_reply_chunks = [Response ''Hello'', Response []]"
  "messages (handleVoiceInput sample_parse (Body empty_reply_chunks True) ''Hi'' True chat_init)
     = [user_message ''Hi'', assistant_voice ''Hello'', assistant_voice [], fallback_message]"
  "speakCalls (handleVoiceInput sample_parse (Body empty_reply_chunks True) ''Hi'' True chat_init)
     = [''Hello'', errorMsg]"
  by code_simp+

lemma aligned_run:
  "\<forall>chunk \<in> set aligned_chunks. length (replies (chunk_events sample_parse chunk)) \<le> 1"
  "foldl deliver [user_message ''Hi''] (received sample_parse aligned_chunks)
     = [user_message ''Hi'', assistant_voice ''Hello'', assistant_voice ''Bye'']"
  "filter (\<lambda>words. words \<noteq> []) (replies (received sample_parse aligned_chunks)) = [''Hello'', ''Bye'']"
  "concat (map (skipped sample_parse) aligned_chunks) = [line_bad]"
  "rested chat_init"
  "\<not> showQuiz chat_init"
  "messages chat_init = []" "speakCalls chat_init = []" "warnings chat_init = []"
  by code_simp+

text \<open>
  Claim C4 on a body that holds the reply \<open>Hello\<close>, a malformed line and the reply \<open>Bye\<close>.
  Read in two chunks, the first ending after 20 characters of the first line, both halves
  of that line fail to parse: three warnings are logged and only \<open>Bye\<close> is delivered. Read
  in one chunk, both replies are handled before React renders; the two queued updaters
  then read the same variable, so the message list shows \<open>Bye\<close> twice, and only \<open>Bye\<close> is
  spoken.
\<close>

theorem split_line_lost:
  "concat split_chunks = whole_body
   \<and> messages (handleVoiceInput sample_parse (Body split_chunks False) ''Hi'' True chat_init)
       = [user_message ''Hi'', assistant_voice ''Bye'']
   \<and> speakCalls (handleVoiceInput sample_parse (Body split_chunks False) ''Hi'' True chat_init)
       = [''Bye'']
   \<and> warnings (handleVoiceInput sample_parse (Body split_chunks False) ''Hi'' True chat_init)
       = [take 20 line_hello, drop 20 line_hello, line_bad]
   \<and> messages (handleVoiceInput sample_parse (Body [whole_body] False) ''Hi'' True chat_init)
       = [user_message ''Hi'', assistant_voice ''Bye'', assistant_voice ''Bye'']
   \<and> speakCalls (handleVoiceInput sample_parse (Body [whole_body] False) ''Hi'' True chat_init)
       = [''Bye'']"
  by (intro conjI sample_lines(4) split_chunks_run whole_body_run)

text \<open>
  Delivery where it works. When no update is pending at the start and no chunk holds more
  than one reply, the message list is the one that results from delivering the received
  events one by one, after the user's message; every reply with non-empty content is
  spoken, in order; and every non-blank line that does not parse is logged and skipped.
\<close>

theorem one_reply_per_chunk:
  assumes "\<not> showQuiz st" and "rested st"
    and "\<forall>chunk \<in> set chunks. length (replies (chunk_events parse chunk)) \<le> 1"
  shows "messages (handleVoiceInput parse (Body chunks False) u True st)
           = foldl deliver (messages st @ [user_message u]) (received parse chunks)
    \<and> speakCalls (handleVoiceInput parse (Body chunks False) u True st)
           = speakCalls st @ filter (\<lambda>words. words \<noteq> []) (replies (received parse chunks))
    \<and> warnings (handleVoiceInput parse (Body chunks False) u True st)
           = warnings st @ concat (map (skipped parse) chunks)"
proof -
  let ?st1 = "render (st\<lparr>interimTranscript := [], loading := True,
                          pendingMessages := pendingMessages st @ [AppendUser u],
                          currentCharIndex := - 1\<rparr>)"
  have r: "rested (?st1\<lparr>aiResponseText := []\<rparr>)"
    by (rule rested_reply [OF render_rested])
  from read_loop_single [OF r assms(3), of "sessionId st"] first_render [OF assms(2), of u]
  show ?thesis
    using assms(1) by (simp add: handleVoiceInput_final render_fields)
qed

theorem one_reply_per_chunk_witness:
  "messages (handleVoiceInput sample_parse (Body aligned_chunks False) ''Hi'' True chat_init)
     = [user_message ''Hi'', assistant_voice ''Hello'', assistant_voice ''Bye'']
   \<and> speakCalls (handleVoiceInput sample_parse (Body aligned_chunks False) ''Hi'' True chat_init)
     = [''Hello'', ''Bye'']
   \<and> warnings (handleVoiceInput sample_parse (Body aligned_chunks False) ''Hi'' True chat_init)
     = [line_bad]"
  using one_reply_per_chunk [OF aligned_run(6) aligned_run(5) aligned_run(1), of "''Hi''"]
  by (simp add: aligned_run)


text \<open>
  Claim C5 on a stream that fails after the reply \<open>Hello\<close> and a second reply with empty
  content, each in a chunk of its own: a reply had been streamed, yet the fallback message
  is appended and spoken, because the \<open>catch\<close> block looks at the content of the last
  message only.
\<close>

theorem empty_reply_not_suppressed:
  "received sample_parse empty_reply_chunks = [Response ''Hello'', Response []]
   \<and> messages (handleVoiceInput sample_parse (Body empty_reply_chunks True) ''Hi'' True chat_init)
       = [user_message ''Hi'', assistant_voice ''Hello'', assistant_voice [], fallback_message]
   \<and> speakCalls (handleVoiceInput sample_parse (Body empty_reply_chunks True) ''Hi'' True chat_init)
       = [''Hello'', errorMsg]"
  by (intro conjI empty_reply_run)

text \<open>
  The failure policy where it holds, for a request made when no update is pending. A
  failure before any reply was received (the request is rejected, the status is not \<open>ok\<close>,
  or the body breaks off before a \<open>response\<close> event) appends exactly one fallback message
  after the user's message and speaks it. A failure after replies of which the last has
  non-empty content is suppressed: the state is the one a normal end of the stream gives.
\<close>

theorem failure_policy:
  assumes "\<not> showQuiz st" and "rested st"
  shows "messages (handleVoiceInput parse FetchRejected u True st)
           = messages st @ [user_message u, fallback_message]
    \<and> speakCalls (handleVoiceInput parse FetchRejected u True st) = speakCalls st @ [errorMsg]
    \<and> handleVoiceInput parse HttpError u True st = handleVoiceInput parse FetchRejected u True st
    \<and> (replies (received parse chunks) = [] \<longrightarrow>
          messages (handleVoiceInput parse (Body chunks True) u True st)
            = messages st @ [user_message u, fallback_message]
          \<and> speakCalls (handleVoiceInput parse (Body chunks True) u True st)
            = speakCalls st @ [errorMsg])
    \<and> (replies (received parse chunks) \<noteq> [] \<and> last (replies (received parse chunks)) \<noteq> [] \<longrightarrow>
          handleVoiceInput parse (Body chunks True) u True st
            = handleVoiceInput parse (Body chunks False) u True st)"
proof -
  let ?st1 = "render (st\<lparr>interimTranscript := [], loading := True,
                          pendingMessages := pendingMessages st @ [AppendUser u],
                          currentCharIndex := - 1\<rparr>)"
  let ?st2 = "?st1\<lparr>aiResponseText := []\<rparr>"
  let ?loop = "read_loop parse (sessionId st) chunks ?st2"
  have r1: "rested ?st1"
    by (rule render_rested)
  have r2: "rested ?st2"
    by (rule rested_reply [OF r1])
  have m1: "messages ?st1 = messages st @ [user_message u]" and s1: "speakCalls ?st1 = speakCalls st"
    by (rule first_render [OF assms(2)])+
  have user: "messages ?st1 \<noteq> []" "role (last (messages ?st1)) = User"
    unfolding m1 by (simp_all add: user_message_def)
  have rejected: "handleVoiceInput parse FetchRejected u True st = (catch_block ?st1)\<lparr>loading := False\<rparr>"
    using assms(1) by (simp add: handleVoiceInput_final)
  have a: "messages (handleVoiceInput parse FetchRejected u True st)
           = messages st @ [user_message u, fallback_message]"
    unfolding rejected using catch_user(1) [OF r1 user] by (simp add: m1)
  have b: "speakCalls (handleVoiceInput parse FetchRejected u True st) = speakCalls st @ [errorMsg]"
    unfolding rejected using catch_user(2) [OF r1 user] by (simp add: s1)
  have c: "handleVoiceInput parse HttpError u True st = handleVoiceInput parse FetchRejected u True st"
    using assms(1) by (simp add: handleVoiceInput_final)
  have broken: "handleVoiceInput parse (Body chunks True) u True st = (catch_block ?loop)\<lparr>loading := False\<rparr>"
    using assms(1) by (simp add: handleVoiceInput_final)
  have ended: "handleVoiceInput parse (Body chunks False) u True st = ?loop\<lparr>loading := False\<rparr>"
    using assms(1) by (simp add: handleVoiceInput_final)
  have rl: "rested ?loop"
    by (rule read_loop_rested [OF r2])
  have d: "messages (handleVoiceInput parse (Body chunks True) u True st)
            = messages st @ [user_message u, fallback_message]
          \<and> speakCalls (handleVoiceInput parse (Body chunks True) u True st)
            = speakCalls st @ [errorMsg]"
    if none: "replies (received parse chunks) = []"
  proof -
    have each: "\<forall>chunk \<in> set chunks. length (replies (chunk_events parse chunk)) \<le> 1"
      using none by (simp add: received_chunks replies_concat)
    from read_loop_single [OF r2 each, of "sessionId st"]
    have m: "messages ?loop = foldl deliver (messages ?st1) (received parse chunks)"
      and s: "speakCalls ?loop = speakCalls ?st1"
      by (simp_all add: none)
    have m': "messages ?loop = messages ?st1"
      unfolding m by (rule deliver_no_reply [OF none user])
    from catch_user [OF rl] user m'
    have "messages (catch_block ?loop) = messages ?loop @ [fallback_message]"
      and "speakCalls (catch_block ?loop) = speakCalls ?loop @ [errorMsg]"
      by simp_all
    then show ?thesis
      unfolding broken by (simp add: m' s m1 s1)
  qed
  have e: "handleVoiceInput parse (Body chunks True) u True st
            = handleVoiceInput parse (Body chunks False) u True st"
    if some: "replies (received parse chunks) \<noteq> []"
      and ne: "last (replies (received parse chunks)) \<noteq> []"
  proof -
    have "answered_last (messages ?loop)"
      by (rule loop_answered [OF r2 some ne])
    then have "catch_block ?loop = ?loop"
      by (rule catch_answered [OF rl])
    then show ?thesis
      unfolding broken ended by simp
  qed
  from a b c d e show ?thesis by blast
qed

lemma failure_samples:
  "\<not> showQuiz chat_init" "rested chat_init"
  "messages chat_init = []" "speakCalls chat_init = []"
  "replies (received sample_parse [line_bad @ [CHR 0x0A]]) = []"
  "replies (received sample_parse [whole_body]) = [''Hello'', ''Bye'']"
  by code_simp+

theorem failure_policy_witness:
  "messages (handleVoiceInput sample_parse FetchRejected ''Hi'' True chat_init)
     = [user_message ''Hi'', fallback_message]
   \<and> speakCalls (handleVoiceInput sample_parse FetchRejected ''Hi'' True chat_init) = [errorMsg]
   \<and> messages (handleVoiceInput sample_parse (Body [line_bad @ [CHR 0x0A]] True) ''Hi'' True chat_init)
     = [user_message ''Hi'', fallback_message]
   \<and> handleVoiceInput sample_parse (Body [whole_body] True) ''Hi'' True chat_init
     = handleVoiceInput sample_parse (Body [whole_body] False) ''Hi'' True chat_init"
proof -
  note t1 = failure_policy [OF failure_samples(1,2), of sample_parse "''Hi''" "[line_bad @ [CHR 0x0A]]"]
  note t2 = failure_policy [OF failure_samples(1,2), of sample_parse "''Hi''" "[whole_body]"]
  from t1 have "messages (handleVoiceInput sample_parse FetchRejected ''Hi'' True chat_init)
     = [user_message ''Hi'', fallback_message]"
    and "speakCalls (handleVoiceInput sample_parse FetchRejected ''Hi'' True chat_init) = [errorMsg]"
    and "messages (handleVoiceInput sample_parse (Body [line_bad @ [CHR 0x0A]] True) ''Hi'' True chat_init)
     = [user_message ''Hi'', fallback_message]"
    by (simp_all add: failure_samples)
  moreover from t2 have "handleVoiceInput sample_parse (Body [whole_body] True) ''Hi'' True chat_init
     = handleVoiceInput sample_parse (Body [whole_body] False) ''Hi'' True chat_init"
    by (simp add: failure_samples)
  ultimately show ?thesis by simp
qed


section \<open>Properties of the voice chat hook\<close>

subsection \<open>Turn taking\<close>

lemmas hook_handlers =
  set_enabled_def initializeVoiceMode_def speak_def stopSpeaking_def stopListening_def
  pauseListening_def resumeListening_def recognition_onstart_def recognition_onend_def
  recognition_onerror_def utterance_onend_def utterance_onerror_def speech_ended_def
  resume_timeout_def unmount_def cleanup_def call_def

lemma speak_keeps_listening:
  "synthRef s \<Longrightarrow> text \<noteq> [] \<Longrightarrow>
   isListening (speak text b s) = isListening s \<and> isSpeaking (speak text b s)
   \<and> hostCalls (speak text b s) =
       hostCalls s @ (if recognitionRef s then [RecAbort] else []) @ [SynthCancel, SynthSpeak (sanitize text)]"
  by (simp add: hook_handlers)

lemma listening_then_speak_run:
  "isListening (hook_run listening_then_speak (hook_init True))"
  "isSpeaking (hook_run listening_then_speak (hook_init True))"
  "isListening (hook_run (butlast listening_then_speak) (hook_init True))"
  "\<not> isSpeaking (hook_run (butlast listening_then_speak) (hook_init True))"
  "last listening_then_speak = Speak ''Hello'' True"
  by code_simp+

lemma overlap_session_run:
  "isListening (hook_run overlap_session (hook_init True))"
  "isSpeaking (hook_run overlap_session (hook_init True)) = False"
  "queued (hostCalls (hook_run overlap_session (hook_init True))) = [''two'']"
  "hostCalls (hook_run overlap_session (hook_init True)) =
     [SynthCancel, RecStart, RecAbort, SynthCancel, SynthSpeak ''one'',
      RecAbort, SynthCancel, SynthSpeak ''two'', RecStart]"
  by code_simp+

text \<open>
  Claim C1 on two calls of \<open>speak\<close> in quick succession. The second call aborts
  recognition and hands over the utterance \<open>two\<close>. The error handler of the cancelled
  first utterance then clears the speaking flag and its ref and starts recognition. When
  the start event arrives, recognition runs and \<open>isListening\<close> is set while the
  synthesizer still holds \<open>two\<close>: capture and playback are active together, and
  \<open>isSpeaking\<close> is false while the utterance plays.
\<close>

theorem capture_during_playback:
  "isListening (hook_run overlap_session (hook_init True))
   \<and> queued (hostCalls (hook_run overlap_session (hook_init True))) = [''two'']
   \<and> hostCalls (hook_run overlap_session (hook_init True)) =
       [SynthCancel, RecStart, RecAbort, SynthCancel, SynthSpeak ''one'',
        RecAbort, SynthCancel, SynthSpeak ''two'', RecStart]
   \<and> isSpeaking (hook_run overlap_session (hook_init True)) = False"
  by (intro conjI overlap_session_run)

lemma speak_twice_run:
  "hostCalls (hook_run speak_twice (hook_init True)) =
     [SynthCancel, RecStart, RecAbort, SynthCancel, SynthSpeak ''one'',
      RecAbort, SynthCancel, SynthSpeak ''two'', RecStart, RecStart]"
  "hostCalls (hook_run (take 6 speak_twice) (hook_init True)) =
     [SynthCancel, RecStart, RecAbort, SynthCancel, SynthSpeak ''one'',
      RecAbort, SynthCancel, SynthSpeak ''two'', RecStart]"
  "isSpeaking (hook_run (take 6 speak_twice) (hook_init True)) = False"
  "queued (hostCalls (hook_run (take 6 speak_twice) (hook_init True))) = [''two'']"
  "starts_after_speech (hostCalls (hook_run speak_twice (hook_init True))) = 2"
  "take 6 speak_twice = [SetEnabled True None, OnStart, Speak ''one'' False, OnEnd,
      Speak ''two'' False, UtteranceError False]"
  by code_simp+

text \<open>
  Claim C3 on two calls of \<open>speak\<close> in quick succession. The second call cancels the
  first utterance, whose error handler then clears the speaking flags and starts
  recognition at once, while the second utterance is still queued; the end of the second
  utterance starts recognition again after the timeout. Recognition is started twice
  after the last utterance was handed over.
\<close>

theorem speak_twice_resumes_twice:
  "take 6 speak_twice = [SetEnabled True None, OnStart, Speak ''one'' False, OnEnd,
      Speak ''two'' False, UtteranceError False]
   \<and> hostCalls (hook_run (take 6 speak_twice) (hook_init True)) =
     [SynthCancel, RecStart, RecAbort, SynthCancel, SynthSpeak ''one'',
      RecAbort, SynthCancel, SynthSpeak ''two'', RecStart]
   \<and> isSpeaking (hook_run (take 6 speak_twice) (hook_init True)) = False
   \<and> queued (hostCalls (hook_run (take 6 speak_twice) (hook_init True))) = [''two'']
   \<and> hostCalls (hook_run speak_twice (hook_init True)) =
     [SynthCancel, RecStart, RecAbort, SynthCancel, SynthSpeak ''one'',
      RecAbort, SynthCancel, SynthSpeak ''two'', RecStart, RecStart]
   \<and> starts_after_speech (hostCalls (hook_run speak_twice (hook_init True))) = 2"
  by (intro conjI speak_twice_run)

text \<open>
  One call of \<open>speak\<close> with recognition available and the feature on. No recognition is
  started when the utterance ends, and exactly one start follows when the timeout of
  100 ms runs; when the utterance fails, the one start follows at once. The speaking flag
  is set by the call and cleared by either handler, which also reports the boundary
  \<open>-1\<close> once when a boundary callback was given.
\<close>

theorem single_speak_recovers:
  assumes "synthRef s" and "text \<noteq> []" and "recognitionRef s" and "isEnabledRef s"
  shows "hostCalls (hook_run [Speak text b, UtteranceEnd b] s)
           = hostCalls s @ [RecAbort, SynthCancel, SynthSpeak (sanitize text)]
    \<and> hostCalls (hook_run [Speak text b, UtteranceEnd b, ResumeTimeout] s)
           = hostCalls s @ [RecAbort, SynthCancel, SynthSpeak (sanitize text), RecStart]
    \<and> hostCalls (hook_run [Speak text b, UtteranceError b] s)
           = hostCalls s @ [RecAbort, SynthCancel, SynthSpeak (sanitize text), RecStart]
    \<and> isSpeaking (hook_run [Speak text b] s)
    \<and> \<not> isSpeaking (hook_run [Speak text b, UtteranceEnd b] s)
    \<and> \<not> isSpeaking (hook_run [Speak text b, UtteranceError b] s)
    \<and> boundaryCalls (hook_run [Speak text b, UtteranceEnd b] s)
           = boundaryCalls s @ (if b then [- 1] else [])
    \<and> boundaryCalls (hook_run [Speak text b, UtteranceError b] s)
           = boundaryCalls s @ (if b then [- 1] else [])"
  using assms by (simp add: hook_run_def hook_handlers)

lemma speak_once_run:
  "hostCalls (hook_run (take 4 speak_once) (hook_init True)) = [SynthCancel, RecStart, RecAbort, SynthCancel, SynthSpeak ''one'']"
  "synthRef (hook_run (take 2 speak_once) (hook_init True))"
  "recognitionRef (hook_run (take 2 speak_once) (hook_init True))"
  "isEnabledRef (hook_run (take 2 speak_once) (hook_init True))"
  "hostCalls (hook_run (take 2 speak_once) (hook_init True)) = [SynthCancel, RecStart]"
  "sanitize ''x<sup>2</sup>'' = ''x raised to the power of 2''"
  by code_simp+

theorem single_speak_recovers_witness:
  "hostCalls (hook_run [Speak ''x<sup>2</sup>'' True, UtteranceEnd True, ResumeTimeout]
       (hook_run (take 2 speak_once) (hook_init True)))
     = [SynthCancel, RecStart, RecAbort, SynthCancel, SynthSpeak ''x raised to the power of 2'', RecStart]
   \<and> hostCalls (hook_run [Speak ''x<sup>2</sup>'' True, UtteranceError True]
       (hook_run (take 2 speak_once) (hook_init True)))
     = [SynthCancel, RecStart, RecAbort, SynthCancel, SynthSpeak ''x raised to the power of 2'', RecStart]"
proof -
  have ne: "''x<sup>2</sup>'' \<noteq> []" by simp
  from single_speak_recovers [OF speak_once_run(2) ne speak_once_run(3) speak_once_run(4), of True]
  show ?thesis
    by (simp add: speak_once_run(5) speak_once_run(6))
qed

lemma queued_append: "queued (cs @ ds) = foldl queue_step (queued cs) ds"
  by (simp add: queued_def)

lemma queued_step_short:
  "length (queued (hostCalls s)) \<le> 1 \<Longrightarrow> length (queued (hostCalls (hook_step s ev))) \<le> 1"
  by (cases ev)
    (auto simp: hook_handlers queued_append queue_step_def Let_def split: option.splits if_splits)

lemma queued_run_short:
  "length (queued (hostCalls (hook_run evs (hook_init supported)))) \<le> 1"
  unfolding hook_run_def
proof (induction evs rule: rev_induct)
  case Nil
  then show ?case by (simp add: hook_init_def queued_def)
next
  case (snoc ev evs)
  from queued_step_short [OF snoc] show ?case by simp
qed

lemma speak_queue:
  "synthRef s \<Longrightarrow> text \<noteq> [] \<Longrightarrow> queued (hostCalls (speak text b s)) = [sanitize text]"
  by (simp add: hook_handlers queued_append queue_step_def)


subsection \<open>What is spoken\<close>

lemma toLowerChar_lt: "toLowerChar c = CHR ''<'' \<longleftrightarrow> c = CHR ''<''"
proof
  assume "c = CHR ''<''"
  then show "toLowerChar c = CHR ''<''"
    by (simp add: toLowerChar_def)
next
  assume low: "toLowerChar c = CHR ''<''"
  define n where "n = (of_char c :: nat)"
  show "c = CHR ''<''"
  proof (cases "(65 \<le> n \<and> n \<le> 90) \<or> (192 \<le> n \<and> n \<le> 222 \<and> n \<noteq> 215)")
    case True
    with low have "char_of (n + 32) = CHR ''<''"
      by (simp add: toLowerChar_def n_def Let_def)
    then have "(of_char (char_of (n + 32) :: char) :: nat) = of_char (CHR ''<'')"
      by simp
    then have "(n + 32) mod 256 = 60"
      by (simp add: of_char_of)
    with True show ?thesis by auto
  next
    case False
    with low show ?thesis
      by (auto simp: toLowerChar_def n_def Let_def split: if_splits)
  qed
qed

lemma matchIgnoreCase_other:
  "CHR ''<'' \<noteq> c \<Longrightarrow> matchIgnoreCase (CHR ''<'' # ps) (c # cs) = None"
proof -
  assume "CHR ''<'' \<noteq> c"
  moreover have "toLowerChar (CHR ''<'') = CHR ''<''"
    by (simp add: toLowerChar_def)
  ultimately have "toLowerChar c \<noteq> toLowerChar (CHR ''<'')"
    using toLowerChar_lt [of c] by auto
  then show ?thesis by simp
qed

lemma matchElement_other:
  "CHR ''<'' \<noteq> c \<Longrightarrow> matchElement (CHR ''<'' # ps) closing (c # cs) = None"
  by (simp add: matchElement_def matchIgnoreCase_other del: matchIgnoreCase.simps)

lemma lazyUntil_group:
  assumes "CHR ''<'' \<notin> set g" and "\<forall>c \<in> set g. \<not> isLineTerminator c"
    and "matchIgnoreCase (CHR ''<'' # ps) (CHR ''<'' # ps @ post) = Some post"
  shows "lazyUntil (CHR ''<'' # ps) (g @ CHR ''<'' # ps @ post) = Some (g, post)"
  using assms(1,2)
proof (induction g)
  case Nil
  with assms(3) show ?case by simp
next
  case (Cons c g)
  then have "CHR ''<'' \<noteq> c" and "\<not> isLineTerminator c"
    by auto
  with Cons show ?case
    by (simp add: matchIgnoreCase_other del: matchIgnoreCase.simps)
qed

lemma matchIgnoreCase_self: "matchIgnoreCase p (p @ post) = Some post"
  by (induction p) simp_all

lemma replaceSup_copy: "CHR ''<'' \<notin> set pre \<Longrightarrow> replaceSup (pre @ s) = pre @ replaceSup s"
  by (induction pre) (simp_all add: matchElement_other)

lemma replaceSub_copy: "CHR ''<'' \<notin> set pre \<Longrightarrow> replaceSub (pre @ s) = pre @ replaceSub s"
  by (induction pre) (simp_all add: matchElement_other)

lemma replaceSup_element:
  assumes "CHR ''<'' \<notin> set pre" and "CHR ''<'' \<notin> set g" and "\<forall>c \<in> set g. \<not> isLineTerminator c"
  shows "replaceSup (pre @ ''<sup>'' @ g @ ''</sup>'' @ post)
           = pre @ '' raised to the power of '' @ g @ '' '' @ replaceSup post"
proof -
  have "lazyUntil ''</sup>'' (g @ ''</sup>'' @ post) = Some (g, post)"
    using lazyUntil_group [OF assms(2,3), of "''/sup>''" post] matchIgnoreCase_self [of "''</sup>''" post]
    by simp
  moreover have "matchIgnoreCase ''<sup>'' (''<sup>'' @ g @ ''</sup>'' @ post) = Some (g @ ''</sup>'' @ post)"
    by (rule matchIgnoreCase_self)
  ultimately have "matchElement ''<sup>'' ''</sup>'' (''<sup>'' @ g @ ''</sup>'' @ post) = Some (g, post)"
    by (simp add: matchElement_def del: matchIgnoreCase.simps lazyUntil.simps)
  then have "replaceSup (''<sup>'' @ g @ ''</sup>'' @ post)
      = '' raised to the power of '' @ g @ '' '' @ replaceSup post"
    by (simp del: matchIgnoreCase.simps lazyUntil.simps)
  with replaceSup_copy [OF assms(1)] show ?thesis by simp
qed

lemma replaceSub_element:
  assumes "CHR ''<'' \<notin> set pre" and "CHR ''<'' \<notin> set g" and "\<forall>c \<in> set g. \<not> isLineTerminator c"
  shows "replaceSub (pre @ ''<sub>'' @ g @ ''</sub>'' @ post)
           = pre @ '' base '' @ g @ '' '' @ replaceSub post"
proof -
  have "lazyUntil ''</sub>'' (g @ ''</sub>'' @ post) = Some (g, post)"
    using lazyUntil_group [OF assms(2,3), of "''/sub>''" post] matchIgnoreCase_self [of "''</sub>''" post]
    by simp
  moreover have "matchIgnoreCase ''<sub>'' (''<sub>'' @ g @ ''</sub>'' @ post) = Some (g @ ''</sub>'' @ post)"
    by (rule matchIgnoreCase_self)
  ultimately have "matchElement ''<sub>'' ''</sub>'' (''<sub>'' @ g @ ''</sub>'' @ post) = Some (g, post)"
    by (simp add: matchElement_def del: matchIgnoreCase.simps lazyUntil.simps)
  then have "replaceSub (''<sub>'' @ g @ ''</sub>'' @ post) = '' base '' @ g @ '' '' @ replaceSub post"
    by (simp del: matchIgnoreCase.simps lazyUntil.simps)
  with replaceSub_copy [OF assms(1)] show ?thesis by simp
qed

lemma dropWhile_until: "x \<notin> set pre \<Longrightarrow> dropWhile (\<lambda>c. c \<noteq> x) (pre @ x # rest) = x # rest"
  by (induction pre) auto

lemma takeWhile_until: "x \<notin> set pre \<Longrightarrow> takeWhile (\<lambda>c. c \<noteq> x) (pre @ x # rest) = pre"
  by (induction pre) auto

lemma matchImage_other: "CHR ''!'' \<noteq> c \<Longrightarrow> matchImage (c # cs) = None"
  by (simp add: matchImage_def)

lemma removeImages_copy: "CHR ''!'' \<notin> set pre \<Longrightarrow> removeImages (pre @ s) = pre @ removeImages s"
  by (induction pre) (simp_all add: matchImage_other)

lemma matchImage_image:
  assumes "CHR '']'' \<notin> set alt" and "url \<noteq> []" and "CHR '')'' \<notin> set url"
  shows "matchImage (''!['' @ alt @ '']('' @ url @ '')'' @ post) = Some post"
  using assms
  by (simp add: matchImage_def Let_def dropWhile_until takeWhile_until)

lemma removeImages_image:
  assumes "CHR ''!'' \<notin> set pre" and "CHR '']'' \<notin> set alt" and "url \<noteq> []" and "CHR '')'' \<notin> set url"
  shows "removeImages (pre @ ''!['' @ alt @ '']('' @ url @ '')'' @ post) = pre @ removeImages post"
proof -
  have "removeImages (''!['' @ alt @ '']('' @ url @ '')'' @ post) = removeImages post"
    using matchImage_image [OF assms(2-4), of post] by simp
  with removeImages_copy [OF assms(1)] show ?thesis by simp
qed

lemma matchUrl_other: "CHR ''h'' \<noteq> c \<Longrightarrow> matchUrl (c # cs) = None"
  by (simp add: matchUrl_def)

lemma removeUrls_copy: "CHR ''h'' \<notin> set pre \<Longrightarrow> removeUrls (pre @ s) = pre @ removeUrls s"
  by (induction pre) (simp_all add: matchUrl_other)

lemma run_of_nonspace:
  assumes "\<forall>c \<in> set u. \<not> isWhiteSpace c" and "post = [] \<or> isWhiteSpace (hd post)"
  shows "takeWhile (\<lambda>c. \<not> isWhiteSpace c) (u @ post) = u"
    and "dropWhile (\<lambda>c. \<not> isWhiteSpace c) (u @ post) = post"
  using assms by (induction u) (auto simp: takeWhile_eq_Nil_iff dropWhile_eq_self_iff)

lemma removeUrls_url:
  assumes "CHR ''h'' \<notin> set pre" and "u \<noteq> []" and "\<forall>c \<in> set u. \<not> isWhiteSpace c"
    and "post = [] \<or> isWhiteSpace (hd post)"
  shows "removeUrls (pre @ ''http://'' @ u @ post) = pre @ removeUrls post"
    and "removeUrls (pre @ ''https://'' @ u @ post) = pre @ removeUrls post"
proof -
  have "matchUrl (''http://'' @ u @ post) = Some post"
    using assms(2) run_of_nonspace [OF assms(3,4)] by (simp add: matchUrl_def)
  then have "removeUrls (''http://'' @ u @ post) = removeUrls post"
    by simp
  with removeUrls_copy [OF assms(1)]
  show "removeUrls (pre @ ''http://'' @ u @ post) = pre @ removeUrls post" by simp
  have "matchUrl (''https://'' @ u @ post) = Some post"
    using assms(2) run_of_nonspace [OF assms(3,4)] by (simp add: matchUrl_def)
  then have "removeUrls (''https://'' @ u @ post) = removeUrls post"
    by simp
  with removeUrls_copy [OF assms(1)]
  show "removeUrls (pre @ ''https://'' @ u @ post) = pre @ removeUrls post" by simp
qed

lemma matchTag_other: "CHR ''<'' \<noteq> c \<Longrightarrow> matchTag (c # cs) = None"
  unfolding matchTag_def by auto

lemma stripTags_copy: "CHR ''<'' \<notin> set pre \<Longrightarrow> stripTags (pre @ s) = pre @ stripTags s"
  by (induction pre) (simp_all add: matchTag_other)

lemma stripTags_tag:
  assumes "CHR ''<'' \<notin> set pre" and "CHR ''>'' \<notin> set t"
  shows "stripTags (pre @ ''<'' @ t @ ''>'' @ post) = pre @ '' '' @ stripTags post"
proof -
  have "matchTag (''<'' @ t @ ''>'' @ post) = Some post"
    using assms(2) by (simp add: matchTag_def dropWhile_until)
  then have "stripTags (''<'' @ t @ ''>'' @ post) = '' '' @ stripTags post"
    by simp
  with stripTags_copy [OF assms(1)] show ?thesis by simp
qed

lemma containsTag_Cons:
  "containsTag (c # s) = (if c = CHR ''<'' then CHR ''>'' \<in> set s else containsTag s)"
  by (simp add: containsTag_def)

lemma matchTag_set: "matchTag s = Some r \<Longrightarrow> set r \<subseteq> set s"
proof -
  assume "matchTag s = Some r"
  then obtain c cs where s: "s = c # cs" and r: "r = tl (dropWhile (\<lambda>c. c \<noteq> CHR ''>'') cs)"
    by (cases s) (auto simp: matchTag_def split: if_splits)
  have tl_sub: "set (tl xs) \<subseteq> set xs" for xs :: string
    by (cases xs) auto
  have "set r \<subseteq> set (dropWhile (\<lambda>c. c \<noteq> CHR ''>'') cs)"
    unfolding r by (rule tl_sub)
  also have "\<dots> \<subseteq> set cs"
    using set_dropWhileD by fastforce
  finally show ?thesis
    unfolding s by auto
qed

lemma stripTags_set: "set (stripTags s) \<subseteq> insert (CHR '' '') (set s)"
proof (induction s rule: stripTags.induct)
  case 1
  then show ?case by simp
next
  case (2 c cs)
  show ?case
  proof (cases "matchTag (c # cs)")
    case None
    then have eq: "stripTags (c # cs) = c # stripTags cs"
      by simp
    from "2.IH"(1) [OF None] show ?thesis
      unfolding eq by auto
  next
    case (Some r)
    then have eq: "stripTags (c # cs) = CHR '' '' # stripTags r"
      by simp
    from "2.IH"(2) [OF Some] matchTag_set [OF Some] show ?thesis
      unfolding eq by auto
  qed
qed

lemma stripTags_no_tag: "\<not> containsTag (stripTags s)"
proof (induction s rule: stripTags.induct)
  case 1
  then show ?case by (simp add: containsTag_def)
next
  case (2 c cs)
  show ?case
  proof (cases "matchTag (c # cs)")
    case (Some r)
    then have eq: "stripTags (c # cs) = CHR '' '' # stripTags r"
      by simp
    from "2.IH"(2) [OF Some] show ?thesis
      unfolding eq by (simp add: containsTag_Cons)
  next
    case None
    then have eq: "stripTags (c # cs) = c # stripTags cs"
      by simp
    show ?thesis
    proof (cases "c = CHR ''<''")
      case True
      with None have "dropWhile (\<lambda>c. c \<noteq> CHR ''>'') cs = []"
        by (simp add: matchTag_def del: dropWhile_eq_Nil_conv split: if_splits)
      then have "\<forall>x \<in> set cs. x \<noteq> CHR ''>''"
        by (simp only: dropWhile_eq_Nil_conv)
      then have "CHR ''>'' \<notin> set cs"
        by blast
      with stripTags_set [of cs] have "CHR ''>'' \<notin> set (stripTags cs)"
        by auto
      with True show ?thesis
        unfolding eq by (simp add: containsTag_Cons)
    next
      case False
      with "2.IH"(1) [OF None] show ?thesis
        unfolding eq by (simp add: containsTag_Cons)
    qed
  qed
qed

lemma containsTag_skeleton: "containsTag (skeleton s) = containsTag s"
  by (induction s) (auto simp: skeleton_def containsTag_Cons)

lemma whitespace_not_bracket: "isWhiteSpace c \<Longrightarrow> c \<noteq> CHR ''<'' \<and> c \<noteq> CHR ''>''"
  by (auto simp: isWhiteSpace_def)

lemma skeleton_dropWhile: "skeleton (dropWhile isWhiteSpace s) = skeleton s"
  by (induction s) (auto simp: skeleton_def dest: whitespace_not_bracket)

lemma skeleton_rev: "skeleton (rev s) = rev (skeleton s)"
  by (simp add: skeleton_def rev_filter)

lemma skeleton_trim: "skeleton (trim s) = skeleton s"
  by (simp add: trim_def skeleton_rev skeleton_dropWhile)

lemma skeleton_collapse: "skeleton (collapseSpaces s) = skeleton s"
proof (induction s rule: collapseSpaces.induct)
  case 1
  then show ?case by simp
next
  case (2 c cs)
  show ?case
  proof (cases "isWhiteSpace c")
    case True
    with 2 have "skeleton (collapseSpaces (dropWhile isWhiteSpace cs)) = skeleton cs"
      by (simp add: skeleton_dropWhile)
    with True whitespace_not_bracket [OF True] show ?thesis
      by (simp add: skeleton_def)
  next
    case False
    with 2 show ?thesis by (simp add: skeleton_def)
  qed
qed

lemma sanitize_no_tag: "\<not> containsTag (sanitize text)"
proof -
  let ?t = "stripTags (removeUrls (removeImages (replaceSub (replaceSup text))))"
  have "skeleton (sanitize text) = skeleton ?t"
    by (simp add: sanitize_def skeleton_trim skeleton_collapse)
  then have "containsTag (skeleton (sanitize text)) = containsTag (skeleton ?t)"
    by simp
  then have "containsTag (sanitize text) = containsTag ?t"
    by (simp only: containsTag_skeleton)
  then show ?thesis
    by (simp add: stripTags_no_tag)
qed

lemma singleSpaced_nonspace: "\<not> isWhiteSpace c \<Longrightarrow> singleSpaced (c # s) = singleSpaced s"
  by (cases s) simp_all

lemma singleSpaced_tail: "singleSpaced (c # s) \<Longrightarrow> singleSpaced s"
  by (cases s) simp_all

lemma singleSpaced_suffix: "singleSpaced (xs @ ys) \<Longrightarrow> singleSpaced ys"
  by (induction xs) (auto dest: singleSpaced_tail)

lemma singleSpaced_prefix: "singleSpaced (xs @ ys) \<Longrightarrow> singleSpaced xs"
proof (induction xs rule: singleSpaced.induct)
  case 1
  then show ?case by simp
next
  case (2 c)
  then show ?case by (cases ys) auto
next
  case (3 c d cs)
  then show ?case by auto
qed

lemma collapseSpaces_head:
  "s \<noteq> [] \<Longrightarrow> \<not> isWhiteSpace (hd s) \<Longrightarrow> collapseSpaces s = hd s # collapseSpaces (tl s)"
  by (cases s) simp_all

lemma collapse_singleSpaced: "singleSpaced (collapseSpaces s)"
proof (induction s rule: collapseSpaces.induct)
  case 1
  then show ?case by simp
next
  case (2 c cs)
  show ?case
  proof (cases "isWhiteSpace c")
    case False
    with 2 show ?thesis by (simp add: singleSpaced_nonspace)
  next
    case True
    let ?rest = "dropWhile isWhiteSpace cs"
    from True 2 have ih: "singleSpaced (collapseSpaces ?rest)" by simp
    show ?thesis
    proof (cases "?rest = []")
      case True
      with \<open>isWhiteSpace c\<close> have "collapseSpaces (c # cs) = [CHR '' '']"
        by (simp del: dropWhile_eq_Nil_conv)
      then show ?thesis by simp
    next
      case False
      then have "\<not> isWhiteSpace (hd ?rest)"
        by (rule hd_dropWhile)
      with False have "collapseSpaces ?rest = hd ?rest # collapseSpaces (tl ?rest)"
        by (rule collapseSpaces_head)
      with ih \<open>isWhiteSpace c\<close> \<open>\<not> isWhiteSpace (hd ?rest)\<close> show ?thesis by simp
    qed
  qed
qed

lemma trim_infix: "dropWhile isWhiteSpace s = trim s @ rev (takeWhile isWhiteSpace (rev (dropWhile isWhiteSpace s)))"
proof -
  let ?u = "dropWhile isWhiteSpace s"
  have "?u = rev (takeWhile isWhiteSpace (rev ?u) @ dropWhile isWhiteSpace (rev ?u))"
    by (simp only: takeWhile_dropWhile_id rev_rev_ident)
  also have "\<dots> = rev (dropWhile isWhiteSpace (rev ?u)) @ rev (takeWhile isWhiteSpace (rev ?u))"
    by (rule rev_append)
  finally show ?thesis
    unfolding trim_def .
qed

lemma trim_singleSpaced: "singleSpaced s \<Longrightarrow> singleSpaced (trim s)"
proof -
  assume "singleSpaced s"
  then have "singleSpaced (takeWhile isWhiteSpace s @ dropWhile isWhiteSpace s)"
    by simp
  then have "singleSpaced (dropWhile isWhiteSpace s)"
    by (rule singleSpaced_suffix)
  then have "singleSpaced (trim s @ rev (takeWhile isWhiteSpace (rev (dropWhile isWhiteSpace s))))"
    using trim_infix [of s] by simp
  then show ?thesis
    by (rule singleSpaced_prefix)
qed

lemma trim_ends:
  assumes "trim s \<noteq> []"
  shows "\<not> isWhiteSpace (hd (trim s))" and "\<not> isWhiteSpace (last (trim s))"
proof -
  let ?u = "dropWhile isWhiteSpace s"
  from assms have ne: "dropWhile isWhiteSpace (rev ?u) \<noteq> []"
    by (simp add: trim_def)
  then have "\<not> isWhiteSpace (hd (dropWhile isWhiteSpace (rev ?u)))"
    by (rule hd_dropWhile)
  with ne show "\<not> isWhiteSpace (last (trim s))"
    by (simp add: trim_def last_rev)
  obtain suf where u: "?u = trim s @ suf"
    using trim_infix [of s] by (rule that)
  have "hd ?u = hd (trim s @ suf)"
    by (subst u) (rule refl)
  also have "\<dots> = hd (trim s)"
    using assms by simp
  finally have same: "hd ?u = hd (trim s)" .
  have "?u \<noteq> []"
    by (subst u) (simp add: assms)
  then have "\<not> isWhiteSpace (hd ?u)"
    by (rule hd_dropWhile)
  then show "\<not> isWhiteSpace (hd (trim s))"
    unfolding same .
qed

lemma sanitize_wsNormalized: "wsNormalized (sanitize text)"
  unfolding wsNormalized_def sanitize_def
proof (intro conjI impI)
  fix s :: string
  show "singleSpaced (trim (collapseSpaces s))" for s
    by (rule trim_singleSpaced [OF collapse_singleSpaced])
  show "\<not> isWhiteSpace (hd (trim s))" if "trim s \<noteq> []" for s
    using that by (rule trim_ends)
  show "\<not> isWhiteSpace (last (trim s))" if "trim s \<noteq> []" for s
    using that by (rule trim_ends)
qed


lemma multiline_sup_run:
  "sanitize multiline_sup = ''x 2''"
  "hostCalls (hook_run [Speak multiline_sup False] listening)
     = [SynthCancel, RecStart, RecAbort, SynthCancel, SynthSpeak ''x 2'']"
  "queued (hostCalls (hook_run [Speak multiline_sup False] listening)) = [''x 2'']"
  by code_simp+

text \<open>
  Claim C9 on a text whose \<open>sup\<close> element holds a line break. The pattern \<open>(.*?)\<close> does
  not match across the line break, so the element is not replaced by the phrase
  \<open>raised to the power of\<close>: its tags are stripped like any other tag and \<open>x 2\<close> is handed
  to the synthesizer.
\<close>

theorem multiline_sup_spoken:
  "multiline_sup = ''x<sup>2'' @ [CHR 0x0A] @ ''</sup>''
   \<and> sanitize multiline_sup = ''x 2''
   \<and> hostCalls (hook_run [Speak multiline_sup False] listening)
       = [SynthCancel, RecStart, RecAbort, SynthCancel, SynthSpeak ''x 2'']
   \<and> queued (hostCalls (hook_run [Speak multiline_sup False] listening)) = [''x 2'']"
  by (intro conjI multiline_sup_def multiline_sup_run)

text \<open>
  What \<open>speak\<close> does with every text. A call with a synthesizer and a non-empty text cancels
  what the synthesizer holds and then hands it the sanitized text, which is the only
  utterance queued; in every reachable state at most one utterance is queued. The
  sanitized text holds no tag and its white space is normalized. The single passes, each
  on the first match in its input: after text without \<open><\<close>, a \<open>sup\<close> element whose
  content holds neither a line break nor \<open><\<close> becomes the phrase
  \<open>raised to the power of\<close> followed by its content, and such a \<open>sub\<close> element the phrase
  \<open>base\<close> followed by its content; after text without \<open>!\<close>, a markdown image is removed;
  after text without \<open>h\<close>, a raw \<open>http\<close> or \<open>https\<close> URL is removed up to the next white
  space; after text without \<open><\<close>, any tag becomes a space.
\<close>

theorem speak_sanitizes_and_cancels:
  "(synthRef s \<and> words \<noteq> [] \<longrightarrow>
      hostCalls (speak words b s) =
        hostCalls s @ (if recognitionRef s then [RecAbort] else [])
          @ [SynthCancel, SynthSpeak (sanitize words)]
      \<and> queued (hostCalls (speak words b s)) = [sanitize words])
   \<and> length (queued (hostCalls (hook_run evs (hook_init supported)))) \<le> 1
   \<and> \<not> containsTag (sanitize words)
   \<and> wsNormalized (sanitize words)
   \<and> (CHR ''<'' \<notin> set pre \<and> CHR ''<'' \<notin> set g \<and> (\<forall>c \<in> set g. \<not> isLineTerminator c) \<longrightarrow>
        replaceSup (pre @ ''<sup>'' @ g @ ''</sup>'' @ post)
          = pre @ '' raised to the power of '' @ g @ '' '' @ replaceSup post
        \<and> replaceSub (pre @ ''<sub>'' @ g @ ''</sub>'' @ post)
          = pre @ '' base '' @ g @ '' '' @ replaceSub post)
   \<and> (CHR ''!'' \<notin> set pre \<and> CHR '']'' \<notin> set alt \<and> url \<noteq> [] \<and> CHR '')'' \<notin> set url \<longrightarrow>
        removeImages (pre @ ''!['' @ alt @ '']('' @ url @ '')'' @ post) = pre @ removeImages post)
   \<and> (CHR ''h'' \<notin> set pre \<and> u \<noteq> [] \<and> (\<forall>c \<in> set u. \<not> isWhiteSpace c)
        \<and> (post = [] \<or> isWhiteSpace (hd post)) \<longrightarrow>
        removeUrls (pre @ ''http://'' @ u @ post) = pre @ removeUrls post
        \<and> removeUrls (pre @ ''https://'' @ u @ post) = pre @ removeUrls post)
   \<and> (CHR ''<'' \<notin> set pre \<and> CHR ''>'' \<notin> set t \<longrightarrow>
        stripTags (pre @ ''<'' @ t @ ''>'' @ post) = pre @ '' '' @ stripTags post)"
proof (intro conjI impI)
  assume a: "synthRef s \<and> words \<noteq> []"
  then show "hostCalls (speak words b s) =
        hostCalls s @ (if recognitionRef s then [RecAbort] else [])
          @ [SynthCancel, SynthSpeak (sanitize words)]"
    using speak_keeps_listening [of s words b] by blast
  from a show "queued (hostCalls (speak words b s)) = [sanitize words]"
    using speak_queue [of s words b] by blast
next
  show "length (queued (hostCalls (hook_run evs (hook_init supported)))) \<le> 1"
    by (rule queued_run_short)
  show "\<not> containsTag (sanitize words)"
    by (rule sanitize_no_tag)
  show "wsNormalized (sanitize words)"
    by (rule sanitize_wsNormalized)
next
  assume "CHR ''<'' \<notin> set pre \<and> CHR ''<'' \<notin> set g \<and> (\<forall>c \<in> set g. \<not> isLineTerminator c)"
  then have h: "CHR ''<'' \<notin> set pre" "CHR ''<'' \<notin> set g" "\<forall>c \<in> set g. \<not> isLineTerminator c"
    by simp_all
  show "replaceSup (pre @ ''<sup>'' @ g @ ''</sup>'' @ post)
          = pre @ '' raised to the power of '' @ g @ '' '' @ replaceSup post"
    by (rule replaceSup_element [OF h])
  show "replaceSub (pre @ ''<sub>'' @ g @ ''</sub>'' @ post)
          = pre @ '' base '' @ g @ '' '' @ replaceSub post"
    by (rule replaceSub_element [OF h])
next
  assume "CHR ''!'' \<notin> set pre \<and> CHR '']'' \<notin> set alt \<and> url \<noteq> [] \<and> CHR '')'' \<notin> set url"
  then have h: "CHR ''!'' \<notin> set pre" "CHR '']'' \<notin> set alt" "url \<noteq> []" "CHR '')'' \<notin> set url"
    by simp_all
  show "removeImages (pre @ ''!['' @ alt @ '']('' @ url @ '')'' @ post) = pre @ removeImages post"
    by (rule removeImages_image [OF h])
next
  assume "CHR ''h'' \<notin> set pre \<and> u \<noteq> [] \<and> (\<forall>c \<in> set u. \<not> isWhiteSpace c)
        \<and> (post = [] \<or> isWhiteSpace (hd post))"
  then have h: "CHR ''h'' \<notin> set pre" "u \<noteq> []" "\<forall>c \<in> set u. \<not> isWhiteSpace c"
    "post = [] \<or> isWhiteSpace (hd post)"
    by simp_all
  show "removeUrls (pre @ ''http://'' @ u @ post) = pre @ removeUrls post"
    by (rule removeUrls_url(1) [OF h])
  show "removeUrls (pre @ ''https://'' @ u @ post) = pre @ removeUrls post"
    by (rule removeUrls_url(2) [OF h])
next
  assume "CHR ''<'' \<notin> set pre \<and> CHR ''>'' \<notin> set t"
  then have h: "CHR ''<'' \<notin> set pre" "CHR ''>'' \<notin> set t"
    by simp_all
  show "stripTags (pre @ ''<'' @ t @ ''>'' @ post) = pre @ '' '' @ stripTags post"
    by (rule stripTags_tag [OF h])
qed

lemma sample_tails:
  "replaceSup '' now'' = '' now''" "replaceSub '' now'' = '' now''"
  "removeImages '' now'' = '' now''" "removeUrls '' now'' = '' now''"
  "stripTags '' now'' = '' now''"
  "sanitize ''x <sup>2</sup> now'' = ''x raised to the power of 2 now''"
  by code_simp+

lemma listening_state:
  "synthRef listening" "recognitionRef listening" "hostCalls listening = [SynthCancel, RecStart]"
  by code_simp+

theorem speak_sanitizes_and_cancels_witness:
  "hostCalls (speak ''x <sup>2</sup> now'' True listening)
     = [SynthCancel, RecStart, RecAbort, SynthCancel, SynthSpeak ''x raised to the power of 2 now'']
   \<and> queued (hostCalls (speak ''x <sup>2</sup> now'' True listening))
     = [''x raised to the power of 2 now'']
   \<and> replaceSup ''x <sup>2</sup> now'' = ''x  raised to the power of 2  now''
   \<and> replaceSub ''x <sub>2</sub> now'' = ''x  base 2  now''
   \<and> removeImages ''x ![pic](c.png) now'' = ''x  now''
   \<and> removeUrls ''x http://a.b/c now'' = ''x  now''
   \<and> removeUrls ''x https://a.b/c now'' = ''x  now''
   \<and> stripTags ''x <br> now'' = ''x   now''"
proof -
  note t = speak_sanitizes_and_cancels [where s = listening and words = "''x <sup>2</sup> now''"
      and b = True and evs = "[]" and supported = True and pre = "''x ''" and g = "''2''"
      and post = "'' now''" and alt = "''pic''" and url = "''c.png''" and u = "''a.b/c''"
      and t = "''br''"]
  have h1: "synthRef listening \<and> ''x <sup>2</sup> now'' \<noteq> []"
    by (simp add: listening_state)
  have h5: "CHR ''<'' \<notin> set ''x '' \<and> CHR ''<'' \<notin> set ''2'' \<and> (\<forall>c \<in> set ''2''. \<not> isLineTerminator c)"
    by (simp add: isLineTerminator_def)
  have h6: "CHR ''!'' \<notin> set ''x '' \<and> CHR '']'' \<notin> set ''pic'' \<and> ''c.png'' \<noteq> [] \<and> CHR '')'' \<notin> set ''c.png''"
    by simp
  have h7: "CHR ''h'' \<notin> set ''x '' \<and> ''a.b/c'' \<noteq> [] \<and> (\<forall>c \<in> set ''a.b/c''. \<not> isWhiteSpace c)
        \<and> ('' now'' = [] \<or> isWhiteSpace (hd '' now''))"
    by (simp add: isWhiteSpace_def)
  have h8: "CHR ''<'' \<notin> set ''x '' \<and> CHR ''>'' \<notin> set ''br''"
    by simp
  note c1 = t [THEN conjunct1, THEN mp, OF h1]
  note c5 = t [THEN conjunct2, THEN conjunct2, THEN conjunct2, THEN conjunct2, THEN conjunct1,
      THEN mp, OF h5]
  note c6 = t [THEN conjunct2, THEN conjunct2, THEN conjunct2, THEN conjunct2, THEN conjunct2,
      THEN conjunct1, THEN mp, OF h6]
  note c7 = t [THEN conjunct2, THEN conjunct2, THEN conjunct2, THEN conjunct2, THEN conjunct2,
      THEN conjunct2, THEN conjunct1, THEN mp, OF h7]
  note c8 = t [THEN conjunct2, THEN conjunct2, THEN conjunct2, THEN conjunct2, THEN conjunct2,
      THEN conjunct2, THEN conjunct2, THEN mp, OF h8]
  from c1 [THEN conjunct1]
  have a: "hostCalls (speak ''x <sup>2</sup> now'' True listening)
     = [SynthCancel, RecStart, RecAbort, SynthCancel, SynthSpeak ''x raised to the power of 2 now'']"
    by (simp only: listening_state sample_tails if_True append_Cons append_Nil)
  from c1 [THEN conjunct2]
  have b: "queued (hostCalls (speak ''x <sup>2</sup> now'' True listening))
     = [''x raised to the power of 2 now'']"
    by (simp only: sample_tails)
  from c5 [THEN conjunct1]
  have c: "replaceSup ''x <sup>2</sup> now'' = ''x  raised to the power of 2  now''"
    by (simp only: sample_tails append_Cons append_Nil)
  from c5 [THEN conjunct2]
  have d: "replaceSub ''x <sub>2</sub> now'' = ''x  base 2  now''"
    by (simp only: sample_tails append_Cons append_Nil)
  from c6 have e: "removeImages ''x ![pic](c.png) now'' = ''x  now''"
    by (simp only: sample_tails append_Cons append_Nil)
  from c7 [THEN conjunct1]
  have f: "removeUrls ''x http://a.b/c now'' = ''x  now''"
    by (simp only: sample_tails append_Cons append_Nil)
  from c7 [THEN conjunct2]
  have g: "removeUrls ''x https://a.b/c now'' = ''x  now''"
    by (simp only: sample_tails append_Cons append_Nil)
  from c8 have h: "stripTags ''x <br> now'' = ''x   now''"
    by (simp only: sample_tails append_Cons append_Nil)
  from a b c d e f g h show ?thesis
    by (intro conjI)
qed

end
